theory Spec2Isabelle
  imports Main
begin

section \<open>Strings\<close>

text \<open>
  The program is \<^verbatim>\<open>src/main.py\<close>. Python strings are modelled as \<^typ>\<open>string\<close>;
  the platform is POSIX, so \<^verbatim>\<open>os.sep\<close> is the slash and
  \<^verbatim>\<open>s.replace(os.sep, '/')\<close> returns \<^verbatim>\<open>s\<close> itself.
\<close>

abbreviation sep :: char where
  "sep \<equiv> CHR ''/''"

definition startswith :: "string \<Rightarrow> string \<Rightarrow> bool" where
  "startswith s p = (take (length p) s = p)"

definition endswith :: "string \<Rightarrow> string \<Rightarrow> bool" where
  "endswith s p = (length p \<le> length s \<and> drop (length s - length p) s = p)"

text \<open>\<^verbatim>\<open>s.split(os.sep)\<close>: the pieces between slashes; never an empty list.\<close>

fun split_sep :: "string \<Rightarrow> string list" where
  "split_sep [] = [[]]"
| "split_sep (c # cs) =
     (if c = sep then [] # split_sep cs
      else (case split_sep cs of
              [] \<Rightarrow> [[c]]
            | w # ws \<Rightarrow> (c # w) # ws))"

text \<open>\<^verbatim>\<open>os.sep.join(parts)\<close>.\<close>

fun join_sep :: "string list \<Rightarrow> string" where
  "join_sep [] = []"
| "join_sep [w] = w"
| "join_sep (w # ws) = w @ sep # join_sep ws"

text \<open>\<^verbatim>\<open>str.isspace\<close> on the code points below 256, and \<^verbatim>\<open>s.strip()\<close>.\<close>

definition isspace :: "char \<Rightarrow> bool" where
  "isspace c = (of_char c \<in> {9, 10, 11, 12, 13, 28, 29, 30, 31, 32, 133, 160 :: nat})"

definition strip :: "string \<Rightarrow> string" where
  "strip s = rev (dropWhile isspace (rev (dropWhile isspace s)))"

section \<open>Paths: \<^verbatim>\<open>posixpath\<close>\<close>

text \<open>\<^verbatim>\<open>p.rfind('/') + 1\<close>: the length of the part of \<^verbatim>\<open>p\<close> up to its last slash.\<close>

definition rfind_sep1 :: "string \<Rightarrow> nat" where
  "rfind_sep1 p = length p - length (takeWhile (\<lambda>c. c \<noteq> sep) (rev p))"

definition rstrip_sep :: "string \<Rightarrow> string" where
  "rstrip_sep s = rev (dropWhile (\<lambda>c. c = sep) (rev s))"

definition basename :: "string \<Rightarrow> string" where
  "basename p = drop (rfind_sep1 p) p"

definition dirname :: "string \<Rightarrow> string" where
  "dirname p =
     (let head = take (rfind_sep1 p) p
      in if head \<noteq> [] \<and> head \<noteq> replicate (length head) sep then rstrip_sep head else head)"

definition isabs :: "string \<Rightarrow> bool" where
  "isabs p = startswith p ''/''"

text \<open>\<^verbatim>\<open>os.path.join(a, b)\<close> with two arguments.\<close>

definition path_join :: "string \<Rightarrow> string \<Rightarrow> string" where
  "path_join a b =
     (if startswith b ''/'' then b
      else if a = [] \<or> endswith a ''/'' then a @ b
      else a @ ''/'' @ b)"

text \<open>
  The loop of \<^verbatim>\<open>normpath\<close> over the components: empty and dot components are
  dropped, a dot-dot removes the component before it unless there is none (then it is
  kept on a relative path and dropped on an absolute one) or that one is a dot-dot too.
\<close>

fun normpath_comps :: "bool \<Rightarrow> string list \<Rightarrow> string list \<Rightarrow> string list" where
  "normpath_comps initial_slashes new_comps [] = new_comps"
| "normpath_comps initial_slashes new_comps (part # comps) =
     (if part = [] \<or> part = ''.'' then normpath_comps initial_slashes new_comps comps
      else if part \<noteq> ''..'' \<or> (\<not> initial_slashes \<and> new_comps = [])
              \<or> (new_comps \<noteq> [] \<and> last new_comps = ''..'')
        then normpath_comps initial_slashes (new_comps @ [part]) comps
      else if new_comps \<noteq> [] then normpath_comps initial_slashes (butlast new_comps) comps
      else normpath_comps initial_slashes new_comps comps)"

definition normpath :: "string \<Rightarrow> string" where
  "normpath path =
     (if path = [] then ''.''
      else
        let initial_slashes =
              (if startswith path ''/'' then
                 (if startswith path ''//'' \<and> \<not> startswith path ''///'' then 2 else 1)
               else (0::nat));
            comps = normpath_comps (initial_slashes \<noteq> 0) [] (split_sep path);
            path' = replicate initial_slashes sep @ join_sep comps
        in if path' = [] then ''.'' else path')"

text \<open>\<^verbatim>\<open>os.path.abspath\<close>; \<open>cwd\<close> is what \<^verbatim>\<open>os.getcwd()\<close> returns.\<close>

definition abspath :: "string \<Rightarrow> string \<Rightarrow> string" where
  "abspath cwd path = normpath (if isabs path then path else path_join cwd path)"

fun commonprefix :: "string list \<Rightarrow> string list \<Rightarrow> string list" where
  "commonprefix (x # xs) (y # ys) = (if x = y then x # commonprefix xs ys else [])"
| "commonprefix _ _ = []"

datatype error = ValueError | KeyError | PermissionError | UnicodeDecodeError

text \<open>\<^verbatim>\<open>os.path.relpath(path, start)\<close>; it raises on the empty path.\<close>

definition relpath :: "string \<Rightarrow> string \<Rightarrow> string \<Rightarrow> error + string" where
  "relpath cwd path start =
     (if path = [] then Inl ValueError
      else
        let start_list = filter (\<lambda>x. x \<noteq> []) (split_sep (abspath cwd start));
            path_list = filter (\<lambda>x. x \<noteq> []) (split_sep (abspath cwd path));
            i = length (commonprefix start_list path_list);
            rel_list = replicate (length start_list - i) ''..'' @ drop i path_list
        in if rel_list = [] then Inr ''.'' else Inr (join_sep rel_list))"

section \<open>Globs: \<^verbatim>\<open>fnmatch\<close>\<close>

text \<open>
  \<^verbatim>\<open>fnmatch.fnmatch(name, pat)\<close> translates the pattern into a regular expression
  that must match the whole name (on POSIX the case is kept). The model keeps the
  translation as a list of tokens: a star matches any string (slashes included), a
  question mark any one character, a bracket expression one character of a set given
  by its chunks, and an unclosed bracket is a literal.
\<close>

datatype glob_tok =
    Star
  | AnyChar
  | Lit char
  | CharClass bool "string list"

text \<open>
  The end of a bracket expression: \<open>cs\<close> is the pattern after the opening
  bracket. An exclamation mark and then a closing bracket directly after it are
  skipped before the closing bracket is looked for; the result is its index.
\<close>

definition class_end :: "string \<Rightarrow> nat option" where
  "class_end cs =
     (let j0 = (if 0 < length cs \<and> cs ! 0 = CHR ''!'' then 1 else 0);
          j1 = (if j0 < length cs \<and> cs ! j0 = CHR '']'' then j0 + 1 else j0);
          j = j1 + length (takeWhile (\<lambda>c. c \<noteq> CHR '']'') (drop j1 cs))
      in if j \<ge> length cs then None else Some j)"

text \<open>
  The chunks of a bracket expression that has a hyphen: a hyphen ends a chunk and
  starts a range, except among the first \<open>skip\<close> characters (one at the start, two
  after an exclamation mark or after a hyphen that started a range).
\<close>

fun split_ranges :: "string \<Rightarrow> nat \<Rightarrow> string \<Rightarrow> string list" where
  "split_ranges chunk skip [] = [chunk]"
| "split_ranges chunk skip (c # cs) =
     (if c = CHR ''-'' \<and> skip = 0 then chunk # split_ranges [] 2 cs
      else split_ranges (chunk @ [c]) (skip - 1) cs)"

text \<open>An empty last chunk: the hyphen before it is a literal of the chunk before.\<close>

definition close_chunks :: "string list \<Rightarrow> string list" where
  "close_chunks chunks =
     (if 2 \<le> length chunks \<and> last chunks = []
      then butlast (butlast chunks) @ [last (butlast chunks) @ ''-'']
      else chunks)"

text \<open>Empty ranges are removed, from the right.\<close>

fun drop_empty_ranges :: "string list \<Rightarrow> string list" where
  "drop_empty_ranges [] = []"
| "drop_empty_ranges [c] = [c]"
| "drop_empty_ranges (c # cs) =
     (case drop_empty_ranges cs of
        [] \<Rightarrow> [c]
      | d # ds \<Rightarrow>
          (if c \<noteq> [] \<and> d \<noteq> [] \<and> (of_char (last c) :: nat) > of_char (hd d)
           then (butlast c @ tl d) # ds
           else c # d # ds))"

definition class_chunks :: "string \<Rightarrow> string list" where
  "class_chunks stuff =
     (if CHR ''-'' \<notin> set stuff then [stuff]
      else drop_empty_ranges (close_chunks
             (split_ranges [] (if stuff \<noteq> [] \<and> hd stuff = CHR ''!'' then 2 else 1) stuff)))"

definition class_tok :: "string \<Rightarrow> glob_tok" where
  "class_tok stuff =
     (case class_chunks stuff of
        (c # rest) # more \<Rightarrow>
          (if c = CHR ''!'' then CharClass True (rest # more)
           else CharClass False ((c # rest) # more))
      | chunks \<Rightarrow> CharClass False chunks)"

text \<open>
  A character is in the set of a bracket expression when it is one of the characters
  of a chunk or lies in the range between the end of a chunk and the start of the next.
\<close>

fun class_member :: "char \<Rightarrow> string list \<Rightarrow> bool" where
  "class_member c [] = False"
| "class_member c [ch] = (c \<in> set ch)"
| "class_member c (ch # ch' # rest) =
     (c \<in> set ch
      \<or> (ch \<noteq> [] \<and> ch' \<noteq> []
          \<and> (of_char (last ch) :: nat) \<le> of_char c \<and> (of_char c :: nat) \<le> of_char (hd ch'))
      \<or> class_member c (ch' # rest))"

text \<open>\<^verbatim>\<open>fnmatch.translate\<close>: consecutive stars are one star.\<close>

fun translate :: "string \<Rightarrow> glob_tok list" where
  "translate [] = []"
| "translate (c # cs) =
     (if c = CHR ''*'' then
        (case translate cs of
           Star # res \<Rightarrow> Star # res
         | res \<Rightarrow> Star # res)
      else if c = CHR ''?'' then AnyChar # translate cs
      else if c = CHR ''['' then
        (case class_end cs of
           None \<Rightarrow> Lit CHR ''['' # translate cs
         | Some j \<Rightarrow> class_tok (take j cs) # translate (drop (Suc j) cs))
      else Lit c # translate cs)"

fun glob_match :: "glob_tok list \<Rightarrow> string \<Rightarrow> bool" where
  "glob_match [] s = (s = [])"
| "glob_match (Star # ts) [] = glob_match ts []"
| "glob_match (Star # ts) (c # s) = (glob_match ts (c # s) \<or> glob_match (Star # ts) s)"
| "glob_match (AnyChar # ts) [] = False"
| "glob_match (AnyChar # ts) (c # s) = glob_match ts s"
| "glob_match (Lit a # ts) [] = False"
| "glob_match (Lit a # ts) (c # s) = (a = c \<and> glob_match ts s)"
| "glob_match (CharClass neg chunks # ts) [] = False"
| "glob_match (CharClass neg chunks # ts) (c # s) =
     ((class_member c chunks \<noteq> neg) \<and> glob_match ts s)"

definition fnmatch :: "string \<Rightarrow> string \<Rightarrow> bool" where
  "fnmatch name pat = glob_match (translate pat) name"

section \<open>The file system\<close>

text \<open>
  What the program asks of the operating system: the working directory, whether a path
  is a directory or a regular file, the directories below a directory
  (\<^verbatim>\<open>os.walk\<close>) and the text of a file. The file system is a tree; there are no
  symbolic links, and every directory can be searched. A file holds text, or cannot be
  opened (\<^verbatim>\<open>PermissionError\<close>), or holds bytes that are not UTF-8
  (\<^verbatim>\<open>UnicodeDecodeError\<close> while it is read).
\<close>

datatype file_content = Text string | NoPermission | NotUtf8

datatype fs_node = File file_content | Dir "(string \<times> fs_node) list"

record env =
  cwd :: string
  fs_root :: fs_node

text \<open>
  Path resolution from a node, with the directories above it; \<open>parts\<close> are the
  components still to go.
\<close>

fun resolve :: "fs_node \<Rightarrow> fs_node list \<Rightarrow> string list \<Rightarrow> fs_node option" where
  "resolve node ups [] = Some node"
| "resolve (File content) ups (part # parts) = None"
| "resolve (Dir entries) ups (part # parts) =
     (if part = [] \<or> part = ''.'' then resolve (Dir entries) ups parts
      else if part = ''..'' then
        (case ups of
           [] \<Rightarrow> resolve (Dir entries) [] parts
         | up # ups' \<Rightarrow> resolve up ups' parts)
      else
        (case map_of entries part of
           None \<Rightarrow> None
         | Some node \<Rightarrow> resolve node (Dir entries # ups) parts))"

definition lookup :: "env \<Rightarrow> string \<Rightarrow> fs_node option" where
  "lookup e path =
     (if path = [] then None
      else if isabs path then resolve (fs_root e) [] (split_sep path)
      else resolve (fs_root e) [] (split_sep (cwd e) @ split_sep path))"

definition isdir :: "env \<Rightarrow> string \<Rightarrow> bool" where
  "isdir e path = (case lookup e path of Some (Dir entries) \<Rightarrow> True | _ \<Rightarrow> False)"

definition isfile :: "env \<Rightarrow> string \<Rightarrow> bool" where
  "isfile e path = (case lookup e path of Some (File content) \<Rightarrow> True | _ \<Rightarrow> False)"

text \<open>
  The first components of the triples that \<^verbatim>\<open>os.walk(top)\<close> yields, top-down:
  \<open>top\<close> itself and then the walk of each of its subdirectories; nothing when
  \<open>top\<close> is not a directory.
\<close>

fun walk_node :: "string \<Rightarrow> fs_node \<Rightarrow> string list"
  and walk_entries :: "string \<Rightarrow> (string \<times> fs_node) list \<Rightarrow> string list" where
  "walk_node tp (File content) = []"
| "walk_node tp (Dir entries) = tp # walk_entries tp entries"
| "walk_entries tp [] = []"
| "walk_entries tp ((name, node) # entries) =
     walk_node (path_join tp name) node @ walk_entries tp entries"

definition os_walk :: "env \<Rightarrow> string \<Rightarrow> string list" where
  "os_walk e tp = (case lookup e tp of None \<Rightarrow> [] | Some node \<Rightarrow> walk_node tp node)"

section \<open>Loading a rule file: \<^verbatim>\<open>load_gitignore_patterns\<close>\<close>

text \<open>
  Iterating over a file opened in text mode gives its lines, each ended by a newline
  (a carriage return, alone or before a newline, ends a line too) except perhaps the
  last one.
\<close>

fun file_lines :: "string \<Rightarrow> string \<Rightarrow> string list" where
  "file_lines line [] = (if line = [] then [] else [line])"
| "file_lines line (c # cs) =
     (if c = CHR 0x0A then (line @ [CHR 0x0A]) # file_lines [] cs
      else if c = CHR 0x0D then
        (case cs of
           [] \<Rightarrow> [line @ [CHR 0x0A]]
         | c' # cs' \<Rightarrow>
             (if c' = CHR 0x0A then (line @ [CHR 0x0A]) # file_lines [] cs'
              else (line @ [CHR 0x0A]) # file_lines [] cs))
      else file_lines (line @ [c]) cs)"

definition load_gitignore_patterns :: "env \<Rightarrow> string \<Rightarrow> error + string list" where
  "load_gitignore_patterns e gitignore_path =
     (if isfile e gitignore_path then
        (case lookup e gitignore_path of
           Some (File (Text t)) \<Rightarrow>
             Inr (filter (\<lambda>line. line \<noteq> [] \<and> \<not> startswith line ''#'')
                    (map strip (file_lines [] t)))
         | Some (File NoPermission) \<Rightarrow> Inl PermissionError
         | Some (File NotUtf8) \<Rightarrow> Inl UnicodeDecodeError
         | _ \<Rightarrow> Inr [])
      else Inr [])"

section \<open>The resolver: \<^verbatim>\<open>is_file_ignored\<close>\<close>

text \<open>
  The index \<^verbatim>\<open>gitignore_patterns_by_dir\<close> is a dictionary from a directory to the
  lines of its rule file. It is a mutable object that the resolver receives by
  reference, so the resolver is modelled with the index passed in and handed back:
  every access of the source to the dictionary is one of the two reads below.
\<close>

type_synonym index = "string \<rightharpoonup> string list"

definition dict_contains :: "string \<Rightarrow> index \<Rightarrow> bool \<times> index" where
  "dict_contains k d = (d k \<noteq> None, d)"

definition dict_getitem :: "string \<Rightarrow> index \<Rightarrow> (error + string list) \<times> index" where
  "dict_getitem k d = (case d k of None \<Rightarrow> (Inl KeyError, d) | Some v \<Rightarrow> (Inr v, d))"

definition ALWAYS_IGNORE_FILENAMES :: "string set" where
  "ALWAYS_IGNORE_FILENAMES =
     {''package-lock.json'', ''yarn.lock'', ''Pipfile.lock'', ''poetry.lock'', ''.DS_Store''}"

text \<open>Lines 87 to 96: the path lies inside a directory named \<^verbatim>\<open>.git\<close>.\<close>

definition in_git_dir :: "env \<Rightarrow> string \<Rightarrow> bool" where
  "in_git_dir e filepath_abs =
     (let path_parts = split_sep filepath_abs
      in if ''.git'' \<in> set path_parts then
           (let git_index = length (takeWhile (\<lambda>x. x \<noteq> ''.git'') path_parts);
                git_dir_path = join_sep (take (git_index + 1) path_parts)
            in isdir e git_dir_path \<and> startswith filepath_abs (git_dir_path @ ''/''))
         else False)"

text \<open>
  Lines 156 to 180: the flag \<^verbatim>\<open>matched\<close> of one pattern (its exclamation mark
  already removed) on the path relative to the directory of the rule file.
\<close>

definition pattern_matched :: "string \<Rightarrow> string \<Rightarrow> bool" where
  "pattern_matched path_relative_to_gitignore_dir pattern =
     (if endswith pattern ''/'' then
        startswith (path_relative_to_gitignore_dir @ ''/'') pattern
      else if sep \<notin> set pattern then
        (fnmatch (basename path_relative_to_gitignore_dir) pattern
         \<or> fnmatch path_relative_to_gitignore_dir (pattern @ ''/*'')
         \<or> fnmatch path_relative_to_gitignore_dir pattern)
      else fnmatch path_relative_to_gitignore_dir pattern)"

text \<open>Lines 143 to 191: the body of the loop over the patterns, on the two flags.\<close>

definition apply_pattern :: "string \<Rightarrow> bool \<times> bool \<Rightarrow> string \<Rightarrow> bool \<times> bool" where
  "apply_pattern path_relative_to_gitignore_dir flags line =
     (let ignored = fst flags; negated = snd flags;
          is_negation = startswith line ''!'';
          pattern = (if is_negation then drop 1 line else line)
      in if pattern_matched path_relative_to_gitignore_dir pattern then
           (if is_negation then (False, True)
            else if \<not> negated then (True, negated)
            else (ignored, negated))
         else (ignored, negated))"

text \<open>Lines 128 to 135: the directories of the index from the file's directory upwards.\<close>

lemma rstrip_sep_length: "length (rstrip_sep s) \<le> length s"
  by (simp add: rstrip_sep_def length_dropWhile_le le_trans [OF length_dropWhile_le])

lemma dirname_shorter: "dirname p \<noteq> p \<Longrightarrow> length (dirname p) < length p"
proof -
  assume ne: "dirname p \<noteq> p"
  have le: "length (dirname p) \<le> length (take (rfind_sep1 p) p)"
    using rstrip_sep_length [of "take (rfind_sep1 p) p"]
    by (simp add: dirname_def Let_def)
  show ?thesis
  proof (cases "rfind_sep1 p < length p")
    case True
    then show ?thesis using le by simp
  next
    case False
    then have full: "take (rfind_sep1 p) p = p" by simp
    have pre: "dirname p = p \<or> dirname p = rstrip_sep p"
      by (simp add: dirname_def Let_def full)
    have "rstrip_sep p = take (length (rstrip_sep p)) p"
      unfolding rstrip_sep_def
      by (metis append_eq_conv_conj rev_append rev_rev_ident takeWhile_dropWhile_id)
    then have "length (rstrip_sep p) = length p \<Longrightarrow> rstrip_sep p = p"
      by (metis order_refl take_all)
    then show ?thesis using pre ne rstrip_sep_length [of p]
      by (metis le_neq_implies_less)
  qed
qed

function relevant_dirs_loop :: "string \<Rightarrow> string \<Rightarrow> string list \<Rightarrow> index \<Rightarrow> string list \<times> index" where
  "relevant_dirs_loop project_root_abs temp_dir relevant_gitignore_dirs d =
     (case dict_contains temp_dir d of
        (present, d') \<Rightarrow>
          (if temp_dir = project_root_abs \<or> temp_dir = [] \<or> temp_dir = dirname temp_dir
           then (if present then relevant_gitignore_dirs @ [temp_dir]
                 else relevant_gitignore_dirs, d')
           else relevant_dirs_loop project_root_abs (dirname temp_dir)
                  (if present then relevant_gitignore_dirs @ [temp_dir]
                   else relevant_gitignore_dirs) d'))"
  by pat_completeness auto
termination
  by (relation "measure (\<lambda>(r, t, a, d). length t)") (auto simp: dirname_shorter)

text \<open>Lines 138 to 191: the loop over the directories found, deepest first.\<close>

fun dirs_loop :: "env \<Rightarrow> string \<Rightarrow> string list \<Rightarrow> bool \<times> bool \<Rightarrow> index
    \<Rightarrow> (error + bool \<times> bool) \<times> index" where
  "dirs_loop e filepath_abs [] flags d = (Inr flags, d)"
| "dirs_loop e filepath_abs (gitignore_dir_abs # dirs) flags d =
     (case dict_getitem gitignore_dir_abs d of
        (Inl err, d') \<Rightarrow> (Inl err, d')
      | (Inr patterns, d') \<Rightarrow>
          (case relpath (cwd e) filepath_abs gitignore_dir_abs of
             Inl err \<Rightarrow> (Inl err, d')
           | Inr path_relative_to_gitignore_dir \<Rightarrow>
               dirs_loop e filepath_abs dirs
                 (foldl (apply_pattern path_relative_to_gitignore_dir) flags patterns) d'))"

definition is_file_ignored :: "env \<Rightarrow> string \<Rightarrow> string \<Rightarrow> index \<Rightarrow> (error + bool) \<times> index" where
  "is_file_ignored e filepath_abs project_root_abs d =
     (if basename filepath_abs \<in> ALWAYS_IGNORE_FILENAMES then (Inr True, d)
      else if in_git_dir e filepath_abs then (Inr True, d)
      else
        (case relpath (cwd e) filepath_abs project_root_abs of
           Inl err \<Rightarrow> (Inl err, d)
         | Inr filepath_relative_to_project_root \<Rightarrow>
             (case relevant_dirs_loop project_root_abs (dirname filepath_abs) [] d of
                (relevant_gitignore_dirs, d') \<Rightarrow>
                  (case dirs_loop e filepath_abs relevant_gitignore_dirs (False, False) d' of
                     (Inl err, d'') \<Rightarrow> (Inl err, d'')
                   | (Inr (ignored, negated), d'') \<Rightarrow>
                       (Inr (if \<not> negated then ignored else False), d'')))))"

section \<open>Building the index: \<^verbatim>\<open>collect_gitignore_patterns\<close>\<close>

text \<open>
  The state of the two loops is the dictionary \<^verbatim>\<open>patterns_by_dir\<close> and the set
  \<^verbatim>\<open>gitignores_found\<close>. The test of line 226 guards a \<^verbatim>\<open>pass\<close>, so it
  changes nothing and has no counterpart here. An exception of the loader ends the
  function: nothing in it or in its caller catches one.
\<close>

definition visit_root :: "env \<Rightarrow> string \<Rightarrow> index \<times> string set \<Rightarrow> error + index \<times> string set" where
  "visit_root e root st =
     (let gitignore_path = path_join root ''.gitignore''
      in if isfile e gitignore_path \<and> gitignore_path \<notin> snd st then
           (case load_gitignore_patterns e gitignore_path of
              Inl err \<Rightarrow> Inl err
            | Inr patterns \<Rightarrow> Inr ((fst st)(root \<mapsto> patterns), insert gitignore_path (snd st)))
         else Inr st)"

fun walk_loop :: "env \<Rightarrow> string list \<Rightarrow> index \<times> string set \<Rightarrow> error + index \<times> string set" where
  "walk_loop e [] st = Inr st"
| "walk_loop e (root # roots) st =
     (case visit_root e root st of
        Inl err \<Rightarrow> Inl err
      | Inr st' \<Rightarrow> walk_loop e roots st')"

fun scan_loop :: "env \<Rightarrow> string list \<Rightarrow> index \<times> string set \<Rightarrow> error + index \<times> string set" where
  "scan_loop e [] st = Inr st"
| "scan_loop e (current_search_dir # dirs) st =
     (case walk_loop e (os_walk e current_search_dir) st of
        Inl err \<Rightarrow> Inl err
      | Inr st' \<Rightarrow> scan_loop e dirs st')"

text \<open>
  \<^verbatim>\<open>dirs_to_scan\<close> is a Python set, whose iteration order is not specified; the
  model iterates over it in the order of the start paths.
\<close>

definition dirs_to_scan :: "env \<Rightarrow> string list \<Rightarrow> string list" where
  "dirs_to_scan e start_paths_abs =
     remdups (concat (map (\<lambda>p_abs. if isdir e p_abs then [p_abs]
                                   else if isfile e p_abs then [dirname p_abs]
                                   else []) start_paths_abs))"

definition collect_gitignore_patterns :: "env \<Rightarrow> string list \<Rightarrow> string \<Rightarrow> error + index" where
  "collect_gitignore_patterns e start_paths_abs project_root_abs =
     (let root_gitignore_path = path_join project_root_abs ''.gitignore''
      in case (if isfile e root_gitignore_path then
                 (case load_gitignore_patterns e root_gitignore_path of
                    Inl err \<Rightarrow> Inl err
                  | Inr patterns \<Rightarrow>
                      Inr ([project_root_abs \<mapsto> patterns], {root_gitignore_path}))
               else Inr (Map.empty, {})) of
           Inl err \<Rightarrow> Inl err
         | Inr st \<Rightarrow>
             (case scan_loop e (dirs_to_scan e start_paths_abs) st of
                Inl err \<Rightarrow> Inl err
              | Inr st' \<Rightarrow> Inr (fst st')))"

section \<open>The walk of the resolver\<close>

text \<open>
  The directories that the loop of lines 128 to 135 retains, without the accumulator:
  the chain from the file's directory up to the project root, deepest first, restricted
  to the keys of the index.
\<close>

function relevant_dirs :: "string \<Rightarrow> string \<Rightarrow> index \<Rightarrow> string list" where
  "relevant_dirs project_root_abs temp_dir d =
     (if d temp_dir \<noteq> None then [temp_dir] else []) @
     (if temp_dir = project_root_abs \<or> temp_dir = [] \<or> temp_dir = dirname temp_dir then []
      else relevant_dirs project_root_abs (dirname temp_dir) d)"
  by pat_completeness auto
termination
  by (relation "measure (\<lambda>(r, t, d). length t)") (auto simp: dirname_shorter)

declare relevant_dirs.simps [simp del]
declare relevant_dirs_loop.simps [simp del]

text \<open>
  A rule is a line of a rule file together with the directory of that file. Its negation
  flag is the leading exclamation mark, its pattern the rest of the line, and it matches
  a path when the flag \<^verbatim>\<open>matched\<close> is set for the path relative to its directory.
\<close>

definition rule_negation :: "string \<Rightarrow> bool" where
  "rule_negation line = startswith line ''!''"

definition rule_pattern :: "string \<Rightarrow> string" where
  "rule_pattern line = (if startswith line ''!'' then drop 1 line else line)"

definition relative_to :: "env \<Rightarrow> string \<Rightarrow> string \<Rightarrow> string" where
  "relative_to e filepath_abs dir =
     (case relpath (cwd e) filepath_abs dir of Inl err \<Rightarrow> [] | Inr rel \<Rightarrow> rel)"

definition rule_matches :: "env \<Rightarrow> string \<Rightarrow> string \<times> string \<Rightarrow> bool" where
  "rule_matches e filepath_abs r =
     pattern_matched (relative_to e filepath_abs (fst r)) (rule_pattern (snd r))"

text \<open>The rules of the walk: directory by directory, in file order within each.\<close>

definition rules_of :: "index \<Rightarrow> string list \<Rightarrow> (string \<times> string) list" where
  "rules_of d dirs =
     concat (map (\<lambda>dir. map (Pair dir) (case d dir of None \<Rightarrow> [] | Some patterns \<Rightarrow> patterns)) dirs)"

definition walk :: "string \<Rightarrow> string \<Rightarrow> index \<Rightarrow> (string \<times> string) list" where
  "walk filepath_abs project_root_abs d =
     rules_of d (relevant_dirs project_root_abs (dirname filepath_abs) d)"

text \<open>Lines 82 to 96: the fixed file names and the \<^verbatim>\<open>.git\<close> directories.\<close>

definition denylisted :: "env \<Rightarrow> string \<Rightarrow> bool" where
  "denylisted e filepath_abs =
     (basename filepath_abs \<in> ALWAYS_IGNORE_FILENAMES \<or> in_git_dir e filepath_abs)"

section \<open>The resolver in closed form\<close>

lemma relevant_dirs_loop_eq:
  "relevant_dirs_loop r t acc d = (acc @ relevant_dirs r t d, d)"
proof (induction r t d arbitrary: acc rule: relevant_dirs.induct)
  case (1 r t d)
  show ?case
  proof (cases "t = r \<or> t = [] \<or> t = dirname t")
    case True
    then show ?thesis
      by (subst relevant_dirs_loop.simps, subst relevant_dirs.simps)
         (simp add: dict_contains_def)
  next
    case False
    then show ?thesis
      by (subst relevant_dirs_loop.simps, subst relevant_dirs.simps)
         (simp add: dict_contains_def "1.IH")
  qed
qed

lemma relevant_dirs_in_index: "x \<in> set (relevant_dirs r t d) \<Longrightarrow> d x \<noteq> None"
proof (induction r t d rule: relevant_dirs.induct)
  case (1 r t d)
  then show ?case
    by (subst (asm) relevant_dirs.simps) (auto split: if_splits)
qed

lemma relpath_relative_to: "p \<noteq> [] \<Longrightarrow> relpath (cwd e) p s = Inr (relative_to e p s)"
  by (simp add: relpath_def relative_to_def Let_def)

definition step :: "env \<Rightarrow> string \<Rightarrow> bool \<times> bool \<Rightarrow> string \<times> string \<Rightarrow> bool \<times> bool" where
  "step e filepath_abs flags r = apply_pattern (relative_to e filepath_abs (fst r)) flags (snd r)"

lemma foldl_step_dir:
  "foldl (step e p) flags (map (Pair dir) pats) = foldl (apply_pattern (relative_to e p dir)) flags pats"
  by (induction pats arbitrary: flags) (simp_all add: step_def)

lemma dirs_loop_eq:
  "p \<noteq> [] \<Longrightarrow> \<forall>x \<in> set dirs. d x \<noteq> None \<Longrightarrow>
     dirs_loop e p dirs flags d = (Inr (foldl (step e p) flags (rules_of d dirs)), d)"
proof (induction dirs arbitrary: flags)
  case Nil
  then show ?case by (simp add: rules_of_def)
next
  case (Cons x dirs)
  from Cons.prems obtain pats where pats: "d x = Some pats" by auto
  have rest: "\<forall>x \<in> set dirs. d x \<noteq> None" using Cons.prems by simp
  have ro: "rules_of d (x # dirs) = map (Pair x) pats @ rules_of d dirs"
    by (simp add: rules_of_def pats)
  show ?case
    using Cons.IH [OF Cons.prems(1) rest] Cons.prems(1)
    by (simp add: dict_getitem_def pats relpath_relative_to ro foldl_step_dir)
qed

lemma step_cases:
  "step e p (i, n) r =
     (if rule_matches e p r then
        (if rule_negation (snd r) then (False, True) else if \<not> n then (True, n) else (i, n))
      else (i, n))"
  by (simp add: step_def apply_pattern_def rule_matches_def rule_negation_def rule_pattern_def Let_def)

lemma foldl_step_flags:
  "foldl (step e p) (i, n) rs =
     (let anyneg = (\<exists>r \<in> set rs. rule_matches e p r \<and> rule_negation (snd r));
          anymatch = (\<exists>r \<in> set rs. rule_matches e p r)
      in (if anyneg then False else if n then i else (i \<or> anymatch), n \<or> anyneg))"
proof (induction rs arbitrary: i n)
  case Nil
  then show ?case by simp
next
  case (Cons r rs)
  show ?case
    by (simp only: foldl_Cons step_cases Cons.IH split: if_splits) (auto simp: Let_def)
qed

lemma is_file_ignored_eq:
  assumes "p \<noteq> []"
  shows "is_file_ignored e p root d =
     (Inr (denylisted e p \<or>
           ((\<exists>r \<in> set (walk p root d). rule_matches e p r) \<and>
            \<not> (\<exists>r \<in> set (walk p root d). rule_matches e p r \<and> rule_negation (snd r)))), d)"
proof (cases "denylisted e p")
  case True
  then show ?thesis by (auto simp: is_file_ignored_def denylisted_def)
next
  case False
  have inidx: "\<forall>x \<in> set (relevant_dirs root (dirname p) d). d x \<noteq> None"
    using relevant_dirs_in_index by blast
  show ?thesis
    using False assms
    by (auto simp: is_file_ignored_def denylisted_def relpath_relative_to relevant_dirs_loop_eq
        dirs_loop_eq [OF assms inidx] foldl_step_flags walk_def Let_def)
qed


section \<open>Example inputs\<close>

definition env0 :: env where
  "env0 = \<lparr>cwd = ''/'', fs_root = Dir [(''root'', Dir [])]\<rparr>"

section \<open>Precedence\<close>

text \<open>
  The verdict as section 4.4 of the specification words it: the walk starts from
  \<open>False\<close>, and every rule that matches overwrites the verdict with the negation of
  its negation flag.
\<close>

definition last_matching_rule_verdict :: "env \<Rightarrow> string \<Rightarrow> string \<Rightarrow> index \<Rightarrow> bool" where
  "last_matching_rule_verdict e filepath_abs project_root_abs d =
     foldl (\<lambda>ignored r. if rule_matches e filepath_abs r then \<not> rule_negation (snd r)
                         else ignored)
       False (walk filepath_abs project_root_abs d)"

text \<open>
  C1, as stated, fails: with the root rules \<^verbatim>\<open>!keep.log\<close> and then \<^verbatim>\<open>*.log\<close>,
  the last rule that matches \<^verbatim>\<open>/root/keep.log\<close> is \<^verbatim>\<open>*.log\<close>, whose verdict is
  "ignored", and \<^verbatim>\<open>is_file_ignored\<close> returns \<^verbatim>\<open>False\<close>: once a negation has
  matched, the guard of line 186 keeps later rules from ignoring the path again.
\<close>

theorem last_match_counterexample:
  "fst (is_file_ignored env0 ''/root/keep.log'' ''/root''
          [''/root'' \<mapsto> [''!keep.log'', ''*.log'']])
   \<noteq> Inr (last_matching_rule_verdict env0 ''/root/keep.log'' ''/root''
          [''/root'' \<mapsto> [''!keep.log'', ''*.log'']])"
  by code_simp

text \<open>
  C1, amended: for every candidate path (a non-empty string; \<^verbatim>\<open>relpath\<close> raises on
  the empty one) and every index, \<^verbatim>\<open>is_file_ignored\<close> returns \<^verbatim>\<open>True\<close> exactly
  when the path is caught by the fixed denylist, or at least one rule of the walk
  (retained ancestor directories deepest first, rules of a rule file in file order)
  matches and no rule of the walk that matches is a negation.
\<close>

theorem is_file_ignored_verdict:
  assumes "filepath_abs \<noteq> []"
  shows "fst (is_file_ignored e filepath_abs project_root_abs d) =
     Inr (denylisted e filepath_abs \<or>
          ((\<exists>r \<in> set (walk filepath_abs project_root_abs d). rule_matches e filepath_abs r) \<and>
           \<not> (\<exists>r \<in> set (walk filepath_abs project_root_abs d).
                 rule_matches e filepath_abs r \<and> rule_negation (snd r))))"
  by (simp add: is_file_ignored_eq [OF assms])

text \<open>
  The amended C1 at the input of the counterexample: a negation and an ignore rule both
  match, and the verdict is \<^verbatim>\<open>False\<close>.
\<close>

theorem is_file_ignored_verdict_witness:
  "''/root/keep.log'' \<noteq> [] \<and>
   fst (is_file_ignored env0 ''/root/keep.log'' ''/root''
          [''/root'' \<mapsto> [''!keep.log'', ''*.log'']]) = Inr False"
proof -
  have ne: "''/root/keep.log'' \<noteq> []" by simp
  have rhs: "(denylisted env0 ''/root/keep.log'' \<or>
      ((\<exists>r \<in> set (walk ''/root/keep.log'' ''/root'' [''/root'' \<mapsto> [''!keep.log'', ''*.log'']]).
          rule_matches env0 ''/root/keep.log'' r) \<and>
       \<not> (\<exists>r \<in> set (walk ''/root/keep.log'' ''/root'' [''/root'' \<mapsto> [''!keep.log'', ''*.log'']]).
            rule_matches env0 ''/root/keep.log'' r \<and> rule_negation (snd r)))) = False"
    by code_simp
  show ?thesis
    using is_file_ignored_verdict [OF ne, of env0 "''/root''"
        "[''/root'' \<mapsto> [''!keep.log'', ''*.log'']]"]
    unfolding rhs by simp
qed

text \<open>
  C10: negation is sticky. For every index and every candidate path that the denylist
  does not catch, if some rule of the walk that matches the path is a negation, then
  \<^verbatim>\<open>is_file_ignored\<close> returns \<^verbatim>\<open>False\<close>, whatever other rules match before or
  after it in the walk.
\<close>

theorem negation_is_sticky:
  assumes "filepath_abs \<noteq> []"
    and "\<not> denylisted e filepath_abs"
    and "\<exists>r \<in> set (walk filepath_abs project_root_abs d).
           rule_matches e filepath_abs r \<and> rule_negation (snd r)"
  shows "fst (is_file_ignored e filepath_abs project_root_abs d) = Inr False"
  using assms(2,3) by (simp add: is_file_ignored_eq [OF assms(1)])

text \<open>
  C10 on the rules \<^verbatim>\<open>!keep.log\<close>, \<^verbatim>\<open>*.log\<close>, \<^verbatim>\<open>keep.*\<close> of the root: the
  negation comes first in the file and two ignore rules match after it.
\<close>

theorem negation_is_sticky_witness:
  "''/root/keep.log'' \<noteq> [] \<and> \<not> denylisted env0 ''/root/keep.log'' \<and>
   (\<exists>r \<in> set (walk ''/root/keep.log'' ''/root''
                 [''/root'' \<mapsto> [''!keep.log'', ''*.log'', ''keep.*'']]).
      rule_matches env0 ''/root/keep.log'' r \<and> rule_negation (snd r)) \<and>
   fst (is_file_ignored env0 ''/root/keep.log'' ''/root''
          [''/root'' \<mapsto> [''!keep.log'', ''*.log'', ''keep.*'']]) = Inr False"
proof -
  have ne: "''/root/keep.log'' \<noteq> []" by simp
  have nd: "\<not> denylisted env0 ''/root/keep.log''" by code_simp
  have ex: "\<exists>r \<in> set (walk ''/root/keep.log'' ''/root''
                 [''/root'' \<mapsto> [''!keep.log'', ''*.log'', ''keep.*'']]).
      rule_matches env0 ''/root/keep.log'' r \<and> rule_negation (snd r)"
    by code_simp
  show ?thesis
    using ne nd ex negation_is_sticky [OF ne nd ex] by blast
qed

text \<open>
  C4, as stated, fails: no rule matches \<^verbatim>\<open>/root/yarn.lock\<close> in the empty index (the
  walk has no rule at all), and \<^verbatim>\<open>is_file_ignored\<close> returns \<^verbatim>\<open>True\<close>, because the
  file name is in \<^verbatim>\<open>ALWAYS_IGNORE_FILENAMES\<close>.
\<close>

theorem no_match_counterexample:
  "walk ''/root/yarn.lock'' ''/root'' Map.empty = [] \<and>
   fst (is_file_ignored env0 ''/root/yarn.lock'' ''/root'' Map.empty) = Inr True"
  by code_simp

text \<open>
  C4, amended: for every candidate path that the denylist does not catch and every
  index such that no rule of the walk matches the path, \<^verbatim>\<open>is_file_ignored\<close> returns
  \<^verbatim>\<open>False\<close>.
\<close>

theorem no_match_not_ignored:
  assumes "filepath_abs \<noteq> []"
    and "\<not> denylisted e filepath_abs"
    and "\<not> (\<exists>r \<in> set (walk filepath_abs project_root_abs d). rule_matches e filepath_abs r)"
  shows "fst (is_file_ignored e filepath_abs project_root_abs d) = Inr False"
  using assms(2,3) by (simp add: is_file_ignored_eq [OF assms(1)])

text \<open>
  The amended C4 where the walk has rules and none matches: \<^verbatim>\<open>/root/notes.txt\<close>
  under the root rules \<^verbatim>\<open>*.log\<close> and \<^verbatim>\<open>build/\<close>.
\<close>

theorem no_match_not_ignored_witness:
  "''/root/notes.txt'' \<noteq> [] \<and> \<not> denylisted env0 ''/root/notes.txt'' \<and>
   \<not> (\<exists>r \<in> set (walk ''/root/notes.txt'' ''/root'' [''/root'' \<mapsto> [''*.log'', ''build/'']]).
        rule_matches env0 ''/root/notes.txt'' r) \<and>
   walk ''/root/notes.txt'' ''/root'' [''/root'' \<mapsto> [''*.log'', ''build/'']] \<noteq> [] \<and>
   fst (is_file_ignored env0 ''/root/notes.txt'' ''/root''
          [''/root'' \<mapsto> [''*.log'', ''build/'']]) = Inr False"
proof -
  have ne: "''/root/notes.txt'' \<noteq> []" by simp
  have nd: "\<not> denylisted env0 ''/root/notes.txt''" by code_simp
  have nm: "\<not> (\<exists>r \<in> set (walk ''/root/notes.txt'' ''/root'' [''/root'' \<mapsto> [''*.log'', ''build/'']]).
        rule_matches env0 ''/root/notes.txt'' r)"
    by code_simp
  have rules: "walk ''/root/notes.txt'' ''/root'' [''/root'' \<mapsto> [''*.log'', ''build/'']] \<noteq> []"
    by code_simp
  show ?thesis
    using ne nd nm rules no_match_not_ignored [OF ne nd nm] by blast
qed

text \<open>
  C2, as stated, fails: the root declares \<^verbatim>\<open>!important.txt\<close> and \<^verbatim>\<open>sub\<close>
  declares \<^verbatim>\<open>important.txt\<close>, and \<^verbatim>\<open>is_file_ignored\<close> returns \<^verbatim>\<open>False\<close>, not
  \<^verbatim>\<open>True\<close>, for \<^verbatim>\<open>/root/sub/important.txt\<close>. The rules of \<^verbatim>\<open>sub\<close> are
  applied first and those of the root after them, and a negation that matches anywhere
  in the walk makes the verdict \<^verbatim>\<open>False\<close>.
\<close>

theorem nested_rule_file_overridden:
  "fst (is_file_ignored env0 ''/root/sub/important.txt'' ''/root''
          [''/root'' \<mapsto> [''!important.txt''], ''/root/sub'' \<mapsto> [''important.txt'']])
   = Inr False"
  by code_simp


section \<open>The keys of the index\<close>

text \<open>
  A path is at or under a directory when it is the directory or starts with the
  directory followed by a slash.
\<close>

definition with_sep :: "string \<Rightarrow> string" where
  "with_sep dir = (if endswith dir ''/'' then dir else dir @ ''/'')"

definition at_or_under :: "string \<Rightarrow> string \<Rightarrow> bool" where
  "at_or_under dir path = (path = dir \<or> startswith path (with_sep dir))"

text \<open>
  In a file system, the name of a directory entry is not empty, has no slash and is
  neither dot nor dot-dot.
\<close>

definition valid_name :: "string \<Rightarrow> bool" where
  "valid_name name = (name \<noteq> [] \<and> sep \<notin> set name \<and> name \<noteq> ''.'' \<and> name \<noteq> ''..'')"

fun wf_node :: "fs_node \<Rightarrow> bool"
  and wf_entries :: "(string \<times> fs_node) list \<Rightarrow> bool" where
  "wf_node (File content) = True"
| "wf_node (Dir entries) = wf_entries entries"
| "wf_entries [] = True"
| "wf_entries ((name, node) # entries) = (valid_name name \<and> wf_node node \<and> wf_entries entries)"

lemma visit_root_keys:
  "visit_root e r st = Inr st' \<Longrightarrow> fst st' k \<noteq> None \<Longrightarrow> k = r \<or> fst st k \<noteq> None"
  by (auto simp: visit_root_def Let_def split: if_splits sum.splits)

lemma walk_loop_keys:
  "walk_loop e rs st = Inr st' \<Longrightarrow> fst st' k \<noteq> None \<Longrightarrow> k \<in> set rs \<or> fst st k \<noteq> None"
proof (induction rs arbitrary: st)
  case Nil
  then show ?case by simp
next
  case (Cons r rs)
  from Cons.prems(1) obtain st1 where v: "visit_root e r st = Inr st1"
    and w: "walk_loop e rs st1 = Inr st'"
    by (cases "visit_root e r st") simp_all
  from Cons.IH [OF w Cons.prems(2)] show ?case
  proof
    assume "k \<in> set rs"
    then show ?thesis by simp
  next
    assume "fst st1 k \<noteq> None"
    from visit_root_keys [OF v this] show ?thesis by auto
  qed
qed

lemma scan_loop_keys:
  "scan_loop e ds st = Inr st' \<Longrightarrow> fst st' k \<noteq> None \<Longrightarrow>
     (\<exists>s \<in> set ds. k \<in> set (os_walk e s)) \<or> fst st k \<noteq> None"
proof (induction ds arbitrary: st)
  case Nil
  then show ?case by simp
next
  case (Cons s ds)
  from Cons.prems(1) obtain st1 where v: "walk_loop e (os_walk e s) st = Inr st1"
    and w: "scan_loop e ds st1 = Inr st'"
    by (cases "walk_loop e (os_walk e s) st") simp_all
  from Cons.IH [OF w Cons.prems(2)] show ?case
  proof
    assume "\<exists>s \<in> set ds. k \<in> set (os_walk e s)"
    then show ?thesis by simp
  next
    assume "fst st1 k \<noteq> None"
    from walk_loop_keys [OF v this] show ?thesis by auto
  qed
qed

lemma collect_keys:
  assumes "collect_gitignore_patterns e starts root = Inr d" and "d k \<noteq> None"
  shows "k = root \<or> (\<exists>s \<in> set (dirs_to_scan e starts). k \<in> set (os_walk e s))"
proof -
  define st0 :: "index \<times> string set" where
    "st0 = (if isfile e (path_join root ''.gitignore'')
            then (case load_gitignore_patterns e (path_join root ''.gitignore'') of
                    Inl err \<Rightarrow> (Map.empty, {})
                  | Inr patterns \<Rightarrow> ([root \<mapsto> patterns], {path_join root ''.gitignore''}))
            else (Map.empty, {}))"
  have k0: "fst st0 k \<noteq> None \<Longrightarrow> k = root"
    by (auto simp: st0_def split: if_splits sum.splits)
  from assms(1) obtain st' where
    sc: "scan_loop e (dirs_to_scan e starts) st0 = Inr st'" and d: "d = fst st'"
    by (auto simp: collect_gitignore_patterns_def Let_def st0_def split: if_splits sum.splits)
  from scan_loop_keys [OF sc] assms(2) d k0 show ?thesis by blast
qed

lemma startswith_iff: "startswith s p \<longleftrightarrow> (\<exists>t. s = p @ t)"
  unfolding startswith_def
  by (metis append_eq_conv_conj append_take_drop_id)

lemma endswith_sep: "endswith s ''/'' \<longleftrightarrow> s \<noteq> [] \<and> last s = sep"
proof (cases s rule: rev_cases)
  case Nil
  then show ?thesis by (simp add: endswith_def)
next
  case (snoc ys y)
  then show ?thesis by (simp add: endswith_def)
qed

lemma with_sep_cases: "with_sep d = d \<or> with_sep d = d @ ''/''"
  by (simp add: with_sep_def)

lemma at_or_under_trans:
  assumes ab: "at_or_under a b" and bc: "at_or_under b c"
  shows "at_or_under a c"
proof (cases "b = a \<or> c = b")
  case True
  then show ?thesis using ab bc by auto
next
  case False
  then obtain t u where b: "b = with_sep a @ t" and c: "c = with_sep b @ u"
    using ab bc by (auto simp: at_or_under_def startswith_iff)
  from with_sep_cases [of b] obtain v where "with_sep b = b @ v" by auto
  then have "c = with_sep a @ (t @ v @ u)" using b c by simp
  then show ?thesis unfolding at_or_under_def startswith_iff by blast
qed

lemma path_join_under:
  assumes "tp \<noteq> []" and "\<not> startswith name ''/''"
  shows "at_or_under tp (path_join tp name)"
proof (cases "endswith tp ''/''")
  case True
  then show ?thesis
    using assms by (simp add: path_join_def at_or_under_def with_sep_def startswith_iff)
next
  case False
  then show ?thesis
    using assms by (simp add: path_join_def at_or_under_def with_sep_def startswith_iff)
qed

lemma path_join_nonempty: "tp \<noteq> [] \<Longrightarrow> \<not> startswith name ''/'' \<Longrightarrow> path_join tp name \<noteq> []"
  by (simp add: path_join_def)

lemma valid_name_no_slash: "valid_name name \<Longrightarrow> \<not> startswith name ''/''"
  by (cases name) (auto simp: valid_name_def startswith_def)

lemma walk_under:
  "tp \<noteq> [] \<Longrightarrow> wf_node node \<Longrightarrow> p \<in> set (walk_node tp node) \<Longrightarrow> at_or_under tp p"
  "tp \<noteq> [] \<Longrightarrow> wf_entries entries \<Longrightarrow> p \<in> set (walk_entries tp entries) \<Longrightarrow> at_or_under tp p"
proof (induction tp node and tp entries arbitrary: p and p rule: walk_node_walk_entries.induct)
  case (1 tp content)
  then show ?case by simp
next
  case (2 tp entries)
  then show ?case by (auto simp: at_or_under_def)
next
  case (3 tp)
  then show ?case by simp
next
  case (4 tp name node entries)
  from "4.prems" have vn: "valid_name name" and wn: "wf_node node" and we: "wf_entries entries"
    by simp_all
  from "4.prems"(3) consider "p \<in> set (walk_node (path_join tp name) node)"
    | "p \<in> set (walk_entries tp entries)" by auto
  then show ?case
  proof cases
    case 1
    have "at_or_under (path_join tp name) p"
      using "4.IH"(1) [OF path_join_nonempty [OF "4.prems"(1) valid_name_no_slash [OF vn]] wn 1] .
    then show ?thesis
      using at_or_under_trans [OF path_join_under [OF "4.prems"(1) valid_name_no_slash [OF vn]]]
      by blast
  next
    case 2
    then show ?thesis using "4.IH"(2) [OF "4.prems"(1) we] by blast
  qed
qed

lemma map_of_wf: "wf_entries entries \<Longrightarrow> map_of entries k = Some node \<Longrightarrow> wf_node node"
  by (induction entries) (auto split: if_splits)

lemma resolve_wf:
  "wf_node node \<Longrightarrow> \<forall>u \<in> set ups. wf_node u \<Longrightarrow> resolve node ups parts = Some m \<Longrightarrow> wf_node m"
proof (induction node ups parts rule: resolve.induct)
  case (1 node ups)
  then show ?case by simp
next
  case (2 content ups part parts)
  then show ?case by simp
next
  case (3 entries ups part parts)
  show ?case
  proof (cases "part = [] \<or> part = ''.''")
    case True
    then show ?thesis using 3 by auto
  next
    case nd: False
    show ?thesis
    proof (cases "part = ''..''")
      case True
      then show ?thesis using 3 nd by (cases ups) auto
    next
      case False
      then show ?thesis using 3 nd
        by (auto split: option.splits dest: map_of_wf)
    qed
  qed
qed

lemma lookup_wf: "wf_node (fs_root e) \<Longrightarrow> lookup e path = Some m \<Longrightarrow> wf_node m"
  using resolve_wf [of "fs_root e" "[]"]
  by (auto simp: lookup_def split: if_splits)

lemma os_walk_under:
  assumes "wf_node (fs_root e)" and "p \<in> set (os_walk e s)"
  shows "at_or_under s p"
proof -
  from assms(2) obtain node where l: "lookup e s = Some node" and p: "p \<in> set (walk_node s node)"
    by (cases "lookup e s") (auto simp: os_walk_def)
  from l have "s \<noteq> []" by (auto simp: lookup_def split: if_splits)
  then show ?thesis using walk_under(1) [OF _ lookup_wf [OF assms(1) l] p] by blast
qed

definition env5 :: env where
  "env5 = \<lparr>cwd = ''/'', fs_root = Dir
     [(''proj'', Dir [(''.gitignore'', File (Text ''*.log'')),
                      (''src'', Dir [(''.gitignore'', File (Text (''# local'' @ [CHR 0x0A] @ ''*.tmp'' @ [CHR 0x0A]))), (''main.py'', File (Text ''pass''))])]),
      (''other'', Dir [(''.gitignore'', File (Text ''secret''))])]\<rparr>"

text \<open>
  C5, as stated, fails: with the project root \<^verbatim>\<open>/proj\<close> and the start path
  \<^verbatim>\<open>/other\<close>, which holds a rule file, the index returned has the key
  \<^verbatim>\<open>/other\<close>, and \<^verbatim>\<open>/other\<close> is not at or under the project root.
\<close>

theorem start_path_outside_counterexample:
  "collect_gitignore_patterns env5 [''/other''] ''/proj''
     = Inr [''/proj'' \<mapsto> [''*.log''], ''/other'' \<mapsto> [''secret'']] \<and>
   \<not> at_or_under ''/proj'' ''/other''"
proof -
  have pj: "path_join ''/proj'' ''.gitignore'' = ''/proj/.gitignore''"
    "path_join ''/other'' ''.gitignore'' = ''/other/.gitignore''"
    by code_simp+
  have f: "isfile env5 ''/proj/.gitignore''" "isfile env5 ''/other/.gitignore''"
    by code_simp+
  have l: "load_gitignore_patterns env5 ''/proj/.gitignore'' = Inr [''*.log'']"
    "load_gitignore_patterns env5 ''/other/.gitignore'' = Inr [''secret'']"
    by code_simp+
  have ds: "dirs_to_scan env5 [''/other''] = [''/other'']" by code_simp
  have ow: "os_walk env5 ''/other'' = [''/other'']" by code_simp
  have c: "collect_gitignore_patterns env5 [''/other''] ''/proj''
     = Inr [''/proj'' \<mapsto> [''*.log''], ''/other'' \<mapsto> [''secret'']]"
    by (simp add: collect_gitignore_patterns_def pj f l ds ow visit_root_def)
  have n: "\<not> at_or_under ''/proj'' ''/other''" by code_simp
  show ?thesis using c n by (rule conjI)
qed

text \<open>
  C5, amended: every directory key of the index that \<^verbatim>\<open>collect_gitignore_patterns\<close>
  returns is the project root or a directory that \<^verbatim>\<open>os.walk\<close> yields from the
  directory of a start path; in a file system with valid entry names, when each of
  these start directories is at or under the project root, every key is at or under
  the project root.
\<close>

theorem index_keys:
  assumes "collect_gitignore_patterns e start_paths_abs project_root_abs = Inr d"
    and "k \<in> dom d"
  shows "(k = project_root_abs \<or>
          (\<exists>s \<in> set (dirs_to_scan e start_paths_abs). k \<in> set (os_walk e s))) \<and>
         (wf_node (fs_root e) \<and>
            \<not> (\<exists>s \<in> set (dirs_to_scan e start_paths_abs). \<not> at_or_under project_root_abs s)
          \<longrightarrow> at_or_under project_root_abs k)"
proof -
  have a: "k = project_root_abs \<or>
          (\<exists>s \<in> set (dirs_to_scan e start_paths_abs). k \<in> set (os_walk e s))"
    using collect_keys [OF assms(1)] assms(2) by blast
  have b: "at_or_under project_root_abs k"
    if wf: "wf_node (fs_root e)"
      and un: "\<not> (\<exists>s \<in> set (dirs_to_scan e start_paths_abs). \<not> at_or_under project_root_abs s)"
  proof -
    from a show ?thesis
    proof
      assume "k = project_root_abs"
      then show ?thesis by (simp add: at_or_under_def)
    next
      assume "\<exists>s \<in> set (dirs_to_scan e start_paths_abs). k \<in> set (os_walk e s)"
      then obtain s where s: "s \<in> set (dirs_to_scan e start_paths_abs)"
        and k: "k \<in> set (os_walk e s)" by blast
      from un s have "at_or_under project_root_abs s" by blast
      then show ?thesis using at_or_under_trans os_walk_under [OF wf k] by blast
    qed
  qed
  from a b show ?thesis by blast
qed

text \<open>
  The amended C5 on a start path under the project root: the nested rule file of
  \<^verbatim>\<open>/proj/src\<close> is found through the start path \<^verbatim>\<open>/proj/src/main.py\<close>.
\<close>

theorem index_keys_witness:
  "collect_gitignore_patterns env5 [''/proj/src/main.py''] ''/proj''
     = Inr [''/proj'' \<mapsto> [''*.log''], ''/proj/src'' \<mapsto> [''*.tmp'']] \<and>
   ''/proj/src'' \<in> dom [''/proj'' \<mapsto> [''*.log''], ''/proj/src'' \<mapsto> [''*.tmp'']] \<and>
   wf_node (fs_root env5) \<and>
   \<not> (\<exists>s \<in> set (dirs_to_scan env5 [''/proj/src/main.py'']). \<not> at_or_under ''/proj'' s) \<and>
   (\<exists>s \<in> set (dirs_to_scan env5 [''/proj/src/main.py'']). ''/proj/src'' \<in> set (os_walk env5 s)) \<and>
   at_or_under ''/proj'' ''/proj/src''"
proof -
  have pj: "path_join ''/proj'' ''.gitignore'' = ''/proj/.gitignore''"
    "path_join ''/proj/src'' ''.gitignore'' = ''/proj/src/.gitignore''"
    by code_simp+
  have f: "isfile env5 ''/proj/.gitignore''" "isfile env5 ''/proj/src/.gitignore''"
    by code_simp+
  have l: "load_gitignore_patterns env5 ''/proj/.gitignore'' = Inr [''*.log'']"
    "load_gitignore_patterns env5 ''/proj/src/.gitignore'' = Inr [''*.tmp'']"
    by code_simp+
  have ds: "dirs_to_scan env5 [''/proj/src/main.py''] = [''/proj/src'']" by code_simp
  have ow: "os_walk env5 ''/proj/src'' = [''/proj/src'']" by code_simp
  have c: "collect_gitignore_patterns env5 [''/proj/src/main.py''] ''/proj''
     = Inr [''/proj'' \<mapsto> [''*.log''], ''/proj/src'' \<mapsto> [''*.tmp'']]"
    by (simp add: collect_gitignore_patterns_def pj f l ds ow visit_root_def)
  have k: "''/proj/src'' \<in> dom [''/proj'' \<mapsto> [''*.log''], ''/proj/src'' \<mapsto> [''*.tmp'']]"
    by simp
  have wf: "wf_node (fs_root env5)" by code_simp
  have ne: "''/proj/src'' \<noteq> ''/proj''" by simp
  have un: "\<not> (\<exists>s \<in> set (dirs_to_scan env5 [''/proj/src/main.py'']). \<not> at_or_under ''/proj'' s)"
    unfolding ds by (simp add: at_or_under_def with_sep_def startswith_def endswith_def)
  from index_keys [OF c k]
  have r: "(\<exists>s \<in> set (dirs_to_scan env5 [''/proj/src/main.py'']). ''/proj/src'' \<in> set (os_walk env5 s)) \<and>
        at_or_under ''/proj'' ''/proj/src''"
    using wf un ne by (simp only: simp_thms)
  show ?thesis
    using c k wf un r by (simp only: simp_thms)
qed

section \<open>Rule files that cannot be read\<close>

definition env6 :: "file_content \<Rightarrow> env" where
  "env6 content = \<lparr>cwd = ''/'', fs_root = Dir
     [(''root'', Dir [(''.gitignore'', File content), (''a.py'', File (Text ''pass''))])]\<rparr>"

text \<open>
  C6: a rule file that exists and cannot be read. The claim is that the loader gives
  an empty rule list and nothing raises. \<^verbatim>\<open>load_gitignore_patterns\<close> has no handler:
  on a rule file that cannot be opened it raises \<^verbatim>\<open>PermissionError\<close>, on one that
  is not UTF-8 it raises \<^verbatim>\<open>UnicodeDecodeError\<close>, and \<^verbatim>\<open>collect_gitignore_patterns\<close>
  ends with the same exception instead of returning an index.
\<close>

theorem unreadable_rule_file_raises:
  "load_gitignore_patterns (env6 NoPermission) ''/root/.gitignore'' = Inl PermissionError \<and>
   load_gitignore_patterns (env6 NotUtf8) ''/root/.gitignore'' = Inl UnicodeDecodeError \<and>
   collect_gitignore_patterns (env6 NoPermission) [''/root''] ''/root'' = Inl PermissionError \<and>
   collect_gitignore_patterns (env6 NotUtf8) [''/root/a.py''] ''/root'' = Inl UnicodeDecodeError"
proof -
  have pj: "path_join ''/root'' ''.gitignore'' = ''/root/.gitignore''"
    by code_simp
  have f: "isfile (env6 NoPermission) ''/root/.gitignore''"
    "isfile (env6 NotUtf8) ''/root/.gitignore''"
    by code_simp+
  have l: "load_gitignore_patterns (env6 NoPermission) ''/root/.gitignore'' = Inl PermissionError"
    "load_gitignore_patterns (env6 NotUtf8) ''/root/.gitignore'' = Inl UnicodeDecodeError"
    by code_simp+
  show ?thesis
    by (simp add: collect_gitignore_patterns_def pj f l)
qed

section \<open>Absolute paths by their components\<close>

text \<open>
  A normalised absolute path is the slash alone or a slash before each of its
  components, which are valid names. On such paths \<^verbatim>\<open>dirname\<close> removes the last
  component, \<^verbatim>\<open>abspath\<close> changes nothing, and \<^verbatim>\<open>relpath\<close> from a directory
  above gives the remaining components.
\<close>

definition abs_path :: "string list \<Rightarrow> string" where
  "abs_path names = (if names = [] then ''/'' else concat (map ((#) sep) names))"

definition valid_names :: "string list \<Rightarrow> bool" where
  "valid_names names = list_all valid_name names"

lemma valid_names_simps [simp]:
  "valid_names []"
  "valid_names (c # cs) = (valid_name c \<and> valid_names cs)"
  "valid_names (xs @ ys) = (valid_names xs \<and> valid_names ys)"
  by (simp_all add: valid_names_def)

lemma split_sep_nosep: "sep \<notin> set c \<Longrightarrow> split_sep c = [c]"
  by (induction c) auto

lemma split_sep_append: "sep \<notin> set c \<Longrightarrow> split_sep (c @ sep # rest) = c # split_sep rest"
  by (induction c) auto

lemma split_sep_concat:
  "valid_names cs \<Longrightarrow> cs \<noteq> [] \<Longrightarrow> split_sep (concat (map ((#) sep) cs)) = [] # cs"
proof (induction cs)
  case Nil
  then show ?case by simp
next
  case (Cons c cs)
  then have ns: "sep \<notin> set c" by (simp add: valid_name_def)
  show ?case
  proof (cases cs)
    case Nil
    then show ?thesis using ns by (simp add: split_sep_nosep)
  next
    case (Cons c' cs')
    then have "split_sep (concat (map ((#) sep) cs)) = [] # cs"
      using Cons.IH Cons.prems by simp
    moreover have "concat (map ((#) sep) cs) = sep # c' @ concat (map ((#) sep) cs')"
      using Cons by simp
    ultimately show ?thesis
      using ns split_sep_append [OF ns, of "c' @ concat (map ((#) sep) cs')"]
      by (simp add: Cons)
  qed
qed

lemma split_sep_abs_path:
  "valid_names cs \<Longrightarrow> split_sep (abs_path cs) = (if cs = [] then [[], []] else [] # cs)"
  by (simp add: abs_path_def split_sep_concat)

lemma valid_nonempty: "valid_names cs \<Longrightarrow> filter (\<lambda>x. x \<noteq> []) cs = cs"
  by (induction cs) (auto simp: valid_name_def)

lemma parts_abs_path:
  "valid_names cs \<Longrightarrow> filter (\<lambda>x. x \<noteq> []) (split_sep (abs_path cs)) = cs"
  by (simp add: split_sep_abs_path valid_nonempty)

lemma abs_path_inj: "valid_names xs \<Longrightarrow> valid_names ys \<Longrightarrow> abs_path xs = abs_path ys \<Longrightarrow> xs = ys"
  by (metis parts_abs_path)

lemma abs_path_snoc:
  "abs_path (cs @ [c]) = (if cs = [] then [] else abs_path cs) @ sep # c"
  by (simp add: abs_path_def)

lemma abs_path_nonempty [simp]: "abs_path cs \<noteq> []"
  by (cases cs) (simp_all add: abs_path_def)

lemma abs_path_last: "valid_names cs \<Longrightarrow> cs \<noteq> [] \<Longrightarrow> last (abs_path cs) \<noteq> sep"
proof (induction cs rule: rev_induct)
  case Nil
  then show ?case by simp
next
  case (snoc c cs)
  then have "c \<noteq> []" "sep \<notin> set c" by (simp_all add: valid_name_def)
  then show ?case
    by (simp add: abs_path_snoc) (metis last_in_set)
qed

lemma rfind_sep1_snoc: "sep \<notin> set c \<Longrightarrow> rfind_sep1 (p @ sep # c) = Suc (length p)"
proof -
  assume ns: "sep \<notin> set c"
  have "takeWhile (\<lambda>x. x \<noteq> sep) (rev c @ sep # rev p) = rev c"
    using ns by (auto simp: takeWhile_tail)
  then show ?thesis by (simp add: rfind_sep1_def)
qed

lemma basename_snoc: "sep \<notin> set c \<Longrightarrow> basename (p @ sep # c) = c"
  by (simp add: basename_def rfind_sep1_snoc)

lemma rstrip_sep_snoc: "p \<noteq> [] \<Longrightarrow> last p \<noteq> sep \<Longrightarrow> rstrip_sep (p @ [sep]) = p"
  by (cases p rule: rev_cases) (simp_all add: rstrip_sep_def)

lemma dirname_snoc:
  "sep \<notin> set c \<Longrightarrow> p \<noteq> [] \<Longrightarrow> last p \<noteq> sep \<Longrightarrow> dirname (p @ sep # c) = p"
proof -
  assume ns: "sep \<notin> set c" and ne: "p \<noteq> []" and l: "last p \<noteq> sep"
  have h: "take (rfind_sep1 (p @ sep # c)) (p @ sep # c) = p @ [sep]"
    by (simp add: rfind_sep1_snoc [OF ns])
  have "p @ [sep] \<noteq> replicate (Suc (length p)) sep"
  proof
    assume "p @ [sep] = replicate (Suc (length p)) sep"
    then have "set (p @ [sep]) \<subseteq> {sep}" by (metis set_replicate_conv_if subset_insertI insert_absorb2 order_refl empty_subsetI)
    then show False using ne l by (metis last_in_set le_sup_iff set_append singletonD subsetD)
  qed
  then show ?thesis
    unfolding dirname_def h Let_def
    by (simp add: rstrip_sep_snoc [OF ne l] del: replicate_Suc)
qed

lemma dirname_root_child: "sep \<notin> set c \<Longrightarrow> dirname (sep # c) = ''/''"
proof -
  assume ns: "sep \<notin> set c"
  have "rfind_sep1 (sep # c) = 1" using rfind_sep1_snoc [OF ns, of "[]"] by simp
  then show ?thesis by (simp add: dirname_def Let_def)
qed

lemma dirname_abs_path:
  assumes "valid_names cs" "valid_name c"
  shows "dirname (abs_path (cs @ [c])) = abs_path cs"
proof (cases "cs = []")
  case True
  then show ?thesis using assms(2)
    by (simp add: abs_path_def dirname_root_child valid_name_def)
next
  case False
  then show ?thesis using assms
    by (simp add: abs_path_snoc dirname_snoc abs_path_last valid_name_def)
qed

lemma basename_abs_path:
  assumes "valid_name c"
  shows "basename (abs_path (cs @ [c])) = c"
  using assms basename_snoc [of c "if cs = [] then [] else abs_path cs"]
  by (simp add: abs_path_snoc valid_name_def)

lemma normpath_comps_valid:
  "valid_names cs \<Longrightarrow> normpath_comps b acc cs = acc @ cs"
  by (induction cs arbitrary: acc) (auto simp: valid_name_def)

lemma join_sep_abs: "cs \<noteq> [] \<Longrightarrow> sep # join_sep cs = concat (map ((#) sep) cs)"
  by (induction cs rule: join_sep.induct) simp_all

lemma startswith_Cons: "startswith (x # xs) (y # ys) = (x = y \<and> startswith xs ys)"
  by (simp add: startswith_def)

lemma startswith_Nil [simp]: "startswith s []"
  by (simp add: startswith_def)

lemma startswith_Nil_left [simp]: "startswith [] (y # ys) = False"
  by (simp add: startswith_def)

lemma abs_path_Cons: "abs_path (c # cs) = sep # c @ (if cs = [] then [] else abs_path cs)"
  by (simp add: abs_path_def)

lemma isabs_abs_path [simp]: "isabs (abs_path cs)"
  by (cases cs) (simp_all add: isabs_def abs_path_def startswith_Cons)

lemma abs_path_not_double:
  "valid_names cs \<Longrightarrow> \<not> startswith (abs_path cs) ''//''"
  by (cases cs; cases "hd cs")
     (auto simp: abs_path_def startswith_Cons valid_name_def)

lemma normpath_abs_path: "valid_names cs \<Longrightarrow> normpath (abs_path cs) = abs_path cs"
proof -
  assume v: "valid_names cs"
  have st: "startswith (abs_path cs) ''/''"
    using isabs_abs_path [of cs] by (simp add: isabs_def)
  have comps: "normpath_comps True [] (split_sep (abs_path cs)) = cs"
    using v by (simp add: split_sep_abs_path normpath_comps_valid)
  have j: "sep # join_sep cs = abs_path cs"
    by (cases "cs = []") (simp_all add: abs_path_def join_sep_abs)
  show ?thesis
    using abs_path_not_double [OF v]
    by (simp add: normpath_def st comps j Let_def)
qed

lemma abspath_abs_path: "valid_names cs \<Longrightarrow> abspath c (abs_path cs) = abs_path cs"
  by (simp add: abspath_def normpath_abs_path)

lemma commonprefix_append: "commonprefix xs (xs @ ys) = xs"
  by (induction xs) simp_all

lemma relpath_abs_path:
  assumes "valid_names cs" "valid_names ds" "ds \<noteq> []"
  shows "relpath c (abs_path (cs @ ds)) (abs_path cs) = Inr (join_sep ds)"
proof -
  have v: "valid_names (cs @ ds)" using assms by simp
  show ?thesis
    using assms(3)
    by (simp add: relpath_def abspath_abs_path [OF v] abspath_abs_path [OF assms(1)]
        parts_abs_path [OF v] parts_abs_path [OF assms(1)] commonprefix_append Let_def)
qed

lemma relative_to_abs_path:
  assumes "valid_names cs" "valid_names ds" "ds \<noteq> []"
  shows "relative_to e (abs_path (cs @ ds)) (abs_path cs) = join_sep ds"
  by (simp add: relative_to_def relpath_abs_path [OF assms])

lemma path_join_abs_path:
  "valid_names cs \<Longrightarrow> valid_name c \<Longrightarrow> path_join (abs_path cs) c = abs_path (cs @ [c])"
proof -
  assume vs: "valid_names cs" and v: "valid_name c"
  from v have ns: "\<not> startswith c ''/''" by (rule valid_name_no_slash)
  show ?thesis
  proof (cases "cs = []")
    case True
    then show ?thesis using ns
      by (simp add: path_join_def abs_path_def endswith_def)
  next
    case False
    have "\<not> endswith (abs_path cs) ''/''"
      using abs_path_last [OF vs False] by (simp add: endswith_sep)
    then show ?thesis using ns False
      by (simp add: path_join_def abs_path_snoc)
  qed
qed

lemma valid_names_take: "valid_names xs \<Longrightarrow> valid_names (take n xs)"
  unfolding valid_names_def list_all_iff by (meson in_set_takeD)

lemma not_in_git_dir:
  "''.git'' \<notin> set (split_sep p) \<Longrightarrow> \<not> in_git_dir e p"
  unfolding in_git_dir_def Let_def by (simp only: if_False not_False_eq_True)

lemma relevant_dirs_root:
  "relevant_dirs r r d = (if d r \<noteq> None then [r] else [])"
  by (subst relevant_dirs.simps) simp

lemma relevant_dirs_step:
  assumes "valid_names rs" "valid_names ds" "valid_name c"
  shows "relevant_dirs (abs_path rs) (abs_path (rs @ ds @ [c])) d =
     (if d (abs_path (rs @ ds @ [c])) \<noteq> None then [abs_path (rs @ ds @ [c])] else []) @
     relevant_dirs (abs_path rs) (abs_path (rs @ ds)) d"
proof -
  have v: "valid_names (rs @ ds)" using assms by simp
  have dn: "dirname (abs_path (rs @ ds @ [c])) = abs_path (rs @ ds)"
    using dirname_abs_path [OF v assms(3)] by simp
  have v2: "valid_names (rs @ ds @ [c])" using assms by simp
  have ne1: "abs_path (rs @ ds @ [c]) \<noteq> abs_path rs"
    using abs_path_inj [OF v2 assms(1)] by auto
  have ne2: "abs_path (rs @ ds @ [c]) \<noteq> abs_path (rs @ ds)"
    using abs_path_inj [OF v2 v] by auto
  show ?thesis
    by (subst relevant_dirs.simps) (simp add: dn ne1 ne2)
qed

text \<open>Above the deepest directory of the index on the chain, nothing is added.\<close>

lemma relevant_dirs_below:
  assumes "valid_names rs" "valid_names ds" "valid_names es"
    and "\<forall>n. 0 < n \<and> n \<le> length es \<longrightarrow> d (abs_path (rs @ ds @ take n es)) = None"
  shows "relevant_dirs (abs_path rs) (abs_path (rs @ ds @ es)) d =
         relevant_dirs (abs_path rs) (abs_path (rs @ ds)) d"
  using assms(3,4)
proof (induction es rule: rev_induct)
  case Nil
  then show ?case by simp
next
  case (snoc c es)
  have ve: "valid_names es" and vc: "valid_name c" using snoc.prems(1) by simp_all
  have none: "d (abs_path (rs @ ds @ es @ [c])) = None"
    using snoc.prems(2) [rule_format, of "Suc (length es)"] by simp
  have rest: "\<forall>n. 0 < n \<and> n \<le> length es \<longrightarrow> d (abs_path (rs @ ds @ take n es)) = None"
  proof (intro allI impI)
    fix n assume n: "0 < n \<and> n \<le> length es"
    then show "d (abs_path (rs @ ds @ take n es)) = None"
      using snoc.prems(2) [rule_format, of n] by simp
  qed
  have vde: "valid_names (ds @ es)" using assms(2) ve by simp
  show ?case
    using relevant_dirs_step [OF assms(1) vde vc, of d] none snoc.IH [OF ve rest]
    by simp
qed

lemma relevant_dirs_single:
  assumes "valid_names rs" "valid_names ds" "valid_names es"
  shows "relevant_dirs (abs_path rs) (abs_path (rs @ ds @ es)) [abs_path (rs @ ds) \<mapsto> pats]
         = [abs_path (rs @ ds)]"
proof -
  let ?d = "[abs_path (rs @ ds) \<mapsto> pats]"
  have below: "\<forall>n. 0 < n \<and> n \<le> length es \<longrightarrow> ?d (abs_path (rs @ ds @ take n es)) = None"
  proof (intro allI impI)
    fix n assume n: "0 < n \<and> n \<le> length es"
    have v1: "valid_names (rs @ ds @ take n es)"
      using assms by (simp add: valid_names_take)
    have v2: "valid_names (rs @ ds)" using assms by simp
    have "take n es \<noteq> []" using n by auto
    then have "abs_path (rs @ ds @ take n es) \<noteq> abs_path (rs @ ds)"
      using abs_path_inj [OF v1 v2] by auto
    then show "?d (abs_path (rs @ ds @ take n es)) = None" by simp
  qed
  have above: "relevant_dirs (abs_path rs) (abs_path (rs @ ds)) ?d = [abs_path (rs @ ds)]"
    using assms(2)
  proof (cases ds rule: rev_cases)
    case Nil
    then show ?thesis by (simp add: relevant_dirs_root)
  next
    case (snoc ds' c)
    have vd: "valid_names ds'" and vc: "valid_name c" using assms(2) snoc by simp_all
    have up: "\<forall>n. 0 < n \<and> n \<le> length ds' \<longrightarrow> ?d (abs_path (rs @ [] @ take n ds')) = None"
    proof (intro allI impI)
      fix n assume n: "0 < n \<and> n \<le> length ds'"
      have v1: "valid_names (rs @ take n ds')"
        using assms(1) vd by (simp add: valid_names_take)
      have v2: "valid_names (rs @ ds)" using assms by simp
      have "length (take n ds') < length ds" using snoc by simp
      then have "take n ds' \<noteq> ds" by blast
      then have "abs_path (rs @ take n ds') \<noteq> abs_path (rs @ ds)"
        using abs_path_inj [OF v1 v2] by auto
      then show "?d (abs_path (rs @ [] @ take n ds')) = None" by simp
    qed
    have r0: "?d (abs_path rs) = None"
      using abs_path_inj [OF assms(1), of "rs @ ds"] assms snoc by auto
    have "relevant_dirs (abs_path rs) (abs_path (rs @ [] @ ds')) ?d =
          relevant_dirs (abs_path rs) (abs_path (rs @ [])) ?d"
      by (rule relevant_dirs_below [OF assms(1) _ vd up]) simp
    then have "relevant_dirs (abs_path rs) (abs_path (rs @ ds')) ?d = []"
      using r0 by (simp add: relevant_dirs_root)
    then show ?thesis
      using relevant_dirs_step [OF assms(1) vd vc, of ?d] snoc by simp
  qed
  show ?thesis
    unfolding relevant_dirs_below [OF assms below] by (rule above)
qed

section \<open>One rule file\<close>

text \<open>
  The project root is \<open>abs_path rs\<close>, the only rule file of the index lies in the
  directory \<open>abs_path (rs @ ds)\<close> at or under it, and the candidate is the entry
  \<open>c\<close> of the directory \<open>abs_path (rs @ ds @ es)\<close> at or under that one. The
  walk then consists of the lines of this rule file, matched against the path
  \<open>join_sep (es @ [c])\<close>.
\<close>

lemma walk_single:
  assumes "valid_names rs" "valid_names ds" "valid_names es" "valid_name c"
  shows "walk (abs_path (rs @ ds @ es @ [c])) (abs_path rs) [abs_path (rs @ ds) \<mapsto> pats]
         = map (Pair (abs_path (rs @ ds))) pats"
proof -
  have v: "valid_names (rs @ ds @ es)" using assms by simp
  have dn: "dirname (abs_path (rs @ ds @ es @ [c])) = abs_path (rs @ ds @ es)"
    using dirname_abs_path [OF v assms(4)] by simp
  show ?thesis
    by (simp add: walk_def dn relevant_dirs_single [OF assms(1,2,3)] rules_of_def)
qed

lemma rule_matches_single:
  assumes "valid_names rs" "valid_names ds" "valid_names es" "valid_name c"
  shows "rule_matches e (abs_path (rs @ ds @ es @ [c])) (abs_path (rs @ ds), line)
         = pattern_matched (join_sep (es @ [c])) (rule_pattern line)"
proof -
  have v1: "valid_names (rs @ ds)" and v2: "valid_names (es @ [c])" using assms by simp_all
  show ?thesis
    using relative_to_abs_path [OF v1 v2, of e] by (simp add: rule_matches_def)
qed

lemma single_rule_file_verdict:
  assumes "valid_names rs" "valid_names ds" "valid_names es" "valid_name c"
  shows "fst (is_file_ignored e (abs_path (rs @ ds @ es @ [c])) (abs_path rs)
                [abs_path (rs @ ds) \<mapsto> pats]) =
     Inr (denylisted e (abs_path (rs @ ds @ es @ [c])) \<or>
          ((\<exists>line \<in> set pats. pattern_matched (join_sep (es @ [c])) (rule_pattern line)) \<and>
           \<not> (\<exists>line \<in> set pats. pattern_matched (join_sep (es @ [c])) (rule_pattern line)
                   \<and> rule_negation line)))"
  by (simp add: is_file_ignored_eq walk_single [OF assms] rule_matches_single [OF assms])

lemma root_rule_file_verdict:
  assumes "valid_names rs" "valid_names es" "valid_name c"
  shows "fst (is_file_ignored e (abs_path (rs @ es @ [c])) (abs_path rs) [abs_path rs \<mapsto> pats]) =
     Inr (denylisted e (abs_path (rs @ es @ [c])) \<or>
          ((\<exists>line \<in> set pats. pattern_matched (join_sep (es @ [c])) (rule_pattern line)) \<and>
           \<not> (\<exists>line \<in> set pats. pattern_matched (join_sep (es @ [c])) (rule_pattern line)
                   \<and> rule_negation line)))"
  using single_rule_file_verdict [OF assms(1) _ assms(2,3), of "[]" e pats] by simp

lemma not_always_ignored:
  "''keep.log'' \<notin> ALWAYS_IGNORE_FILENAMES" "''x'' \<notin> ALWAYS_IGNORE_FILENAMES"
  by (simp_all add: ALWAYS_IGNORE_FILENAMES_def)

lemma basename_nosep: "sep \<notin> set c \<Longrightarrow> basename c = c"
proof -
  assume "sep \<notin> set c"
  then have tw: "takeWhile (\<lambda>x. x \<noteq> sep) (rev c) = rev c"
    by (auto simp: takeWhile_eq_all_conv)
  show ?thesis unfolding basename_def rfind_sep1_def tw by simp
qed

lemma join_sep_snoc: "join_sep (es @ [c]) = (if es = [] then c else join_sep es @ sep # c)"
  by (induction es rule: join_sep.induct) simp_all

lemma basename_join_sep: "valid_name c \<Longrightarrow> basename (join_sep (es @ [c])) = c"
  by (simp add: join_sep_snoc basename_nosep basename_snoc valid_name_def)

lemma unanchored_matched:
  "sep \<notin> set g \<Longrightarrow> fnmatch (basename rel) g \<Longrightarrow> pattern_matched rel g"
proof -
  assume ns: "sep \<notin> set g" and m: "fnmatch (basename rel) g"
  have "\<not> endswith g ''/''" using ns by (metis endswith_sep last_in_set)
  then show ?thesis using ns m by (simp add: pattern_matched_def)
qed

section \<open>Scenarios\<close>

text \<open>
  C2, amended: the rule file of the project root holds \<^verbatim>\<open>!important.txt\<close> and
  the rule file of its directory \<^verbatim>\<open>sub\<close> holds \<^verbatim>\<open>important.txt\<close>. For every
  project root (a normalised absolute path, given by its components) such that
  \<^verbatim>\<open>sub/important.txt\<close> in it is not inside a \<^verbatim>\<open>.git\<close> directory,
  \<^verbatim>\<open>is_file_ignored\<close> returns \<^verbatim>\<open>False\<close> for \<^verbatim>\<open>sub/important.txt\<close>: the
  negation of the root matches, and it is not overridden by the nested rule file.
\<close>

theorem root_negation_resets_nested_rule:
  assumes "valid_names rs"
    and "\<not> in_git_dir e (path_join (path_join (abs_path rs) ''sub'') ''important.txt'')"
  shows "fst (is_file_ignored e (path_join (path_join (abs_path rs) ''sub'') ''important.txt'')
                (abs_path rs)
                [abs_path rs \<mapsto> [''!important.txt''],
                 path_join (abs_path rs) ''sub'' \<mapsto> [''important.txt'']]) = Inr False"
proof -
  let ?R = "abs_path rs" and ?S = "abs_path (rs @ [''sub''])"
  let ?p = "abs_path (rs @ [''sub'', ''important.txt''])"
  let ?d = "[?R \<mapsto> [''!important.txt''], ?S \<mapsto> [''important.txt'']]"
  have vn: "valid_name ''sub''" "valid_name ''important.txt''"
    by (simp_all add: valid_name_def)
  have vs: "valid_names (rs @ [''sub''])" using assms(1) vn by simp
  have ps: "path_join ?R ''sub'' = ?S"
    using path_join_abs_path [OF assms(1) vn(1)] .
  have pp: "path_join ?S ''important.txt'' = ?p"
    using path_join_abs_path [OF vs vn(2)] by simp
  have ne: "?R \<noteq> ?S"
  proof
    assume "?R = ?S"
    then have "rs = rs @ [''sub'']" by (rule abs_path_inj [OF assms(1) vs])
    then show False by simp
  qed
  have dR: "?d ?R = Some [''!important.txt'']"
    by (simp only: fun_upd_apply ne if_False if_True simp_thms)
  have dn: "dirname ?p = ?S"
    using dirname_abs_path [OF vs vn(2)] by simp
  have rel: "relevant_dirs ?R ?S ?d = [?S, ?R]"
    using relevant_dirs_step [OF assms(1) _ vn(1), of "[]" ?d] dR
    by (simp add: relevant_dirs_root)
  have w: "(?R, ''!important.txt'') \<in> set (walk ?p ?R ?d)"
    by (simp add: walk_def dn rel rules_of_def ne)
  have rt: "relative_to e ?p ?R = ''sub/important.txt''"
    using relative_to_abs_path [OF assms(1), of "[''sub'', ''important.txt'']" e] vn by simp
  have pm: "pattern_matched ''sub/important.txt'' ''important.txt''" by code_simp
  have rp: "rule_pattern ''!important.txt'' = ''important.txt''" "rule_negation ''!important.txt''"
    by code_simp+
  have m: "rule_matches e ?p (?R, ''!important.txt'') \<and> rule_negation (snd (?R, ''!important.txt''))"
    by (simp add: rule_matches_def rt rp pm)
  have ex: "\<exists>r \<in> set (walk ?p ?R ?d). rule_matches e ?p r \<and> rule_negation (snd r)"
    using w m by blast
  have ni: "''important.txt'' \<notin> ALWAYS_IGNORE_FILENAMES"
    by (simp add: ALWAYS_IGNORE_FILENAMES_def)
  have nd: "\<not> denylisted e ?p"
    using assms(2) basename_abs_path [OF vn(2), of "rs @ [''sub'']"]
    by (simp add: denylisted_def ps pp ni)
  have "fst (is_file_ignored e ?p ?R ?d) = Inr False"
    using ex nd by (simp add: is_file_ignored_eq)
  then show ?thesis by (simp add: ps pp)
qed

text \<open>The amended C2 on the project root \<^verbatim>\<open>/root\<close>.\<close>

theorem root_negation_resets_nested_rule_witness:
  "valid_names [''root''] \<and> \<not> in_git_dir env0 ''/root/sub/important.txt'' \<and>
   fst (is_file_ignored env0 ''/root/sub/important.txt'' ''/root''
          [''/root'' \<mapsto> [''!important.txt''], ''/root/sub'' \<mapsto> [''important.txt'']])
   = Inr False"
proof -
  have v: "valid_names [''root'']" by code_simp
  have a: "abs_path [''root''] = ''/root''" by code_simp
  have p: "path_join ''/root'' ''sub'' = ''/root/sub''"
    "path_join ''/root/sub'' ''important.txt'' = ''/root/sub/important.txt''"
    by code_simp+
  have g: "\<not> in_git_dir env0 ''/root/sub/important.txt''" by code_simp
  have g': "\<not> in_git_dir env0 (path_join (path_join (abs_path [''root'']) ''sub'') ''important.txt'')"
    unfolding a p by (rule g)
  show ?thesis
    using root_negation_resets_nested_rule [OF v g'] v g unfolding a p by simp
qed

text \<open>
  C3: the only rule file is at the project root and holds \<^verbatim>\<open>*.log\<close> and then
  \<^verbatim>\<open>!keep.log\<close>. For every project root (a normalised absolute path, given by its
  components) such that \<^verbatim>\<open>keep.log\<close> in it is not inside a \<^verbatim>\<open>.git\<close> directory,
  \<^verbatim>\<open>is_file_ignored\<close> returns \<^verbatim>\<open>False\<close> for \<^verbatim>\<open>keep.log\<close> and \<^verbatim>\<open>True\<close>
  for \<^verbatim>\<open>other.log\<close> of the root.
\<close>

theorem log_rules_scenario:
  assumes "valid_names rs"
    and "\<not> in_git_dir e (path_join (abs_path rs) ''keep.log'')"
  shows "fst (is_file_ignored e (path_join (abs_path rs) ''keep.log'') (abs_path rs)
                [abs_path rs \<mapsto> [''*.log'', ''!keep.log'']]) = Inr False \<and>
         fst (is_file_ignored e (path_join (abs_path rs) ''other.log'') (abs_path rs)
                [abs_path rs \<mapsto> [''*.log'', ''!keep.log'']]) = Inr True"
proof -
  have vk: "valid_name ''keep.log''" and vo: "valid_name ''other.log''"
    by (simp_all add: valid_name_def)
  have pk: "path_join (abs_path rs) ''keep.log'' = abs_path (rs @ [''keep.log''])"
    and po: "path_join (abs_path rs) ''other.log'' = abs_path (rs @ [''other.log''])"
    using path_join_abs_path [OF assms(1)] vk vo by simp_all
  have m: "pattern_matched ''keep.log'' ''*.log''" "pattern_matched ''keep.log'' ''keep.log''"
    "pattern_matched ''other.log'' ''*.log''" "\<not> pattern_matched ''other.log'' ''keep.log''"
    by code_simp+
  have r: "rule_pattern ''*.log'' = ''*.log''" "rule_pattern ''!keep.log'' = ''keep.log''"
    "\<not> rule_negation ''*.log''" "rule_negation ''!keep.log''"
    by code_simp+
  have nd: "\<not> denylisted e (abs_path (rs @ [''keep.log'']))"
    using assms(2) basename_abs_path [OF vk, of rs]
    by (simp add: denylisted_def pk not_always_ignored)
  have k: "fst (is_file_ignored e (abs_path (rs @ [''keep.log''])) (abs_path rs)
                [abs_path rs \<mapsto> [''*.log'', ''!keep.log'']]) = Inr False"
    using root_rule_file_verdict [OF assms(1) _ vk, of "[]" e "[''*.log'', ''!keep.log'']"] nd
    by (simp add: m r)
  have o: "fst (is_file_ignored e (abs_path (rs @ [''other.log''])) (abs_path rs)
                [abs_path rs \<mapsto> [''*.log'', ''!keep.log'']]) = Inr True"
    using root_rule_file_verdict [OF assms(1) _ vo, of "[]" e "[''*.log'', ''!keep.log'']"]
    by (simp add: m r)
  show ?thesis using k o by (simp add: pk po)
qed

text \<open>C3 on the project root \<^verbatim>\<open>/root\<close>.\<close>

theorem log_rules_scenario_witness:
  "valid_names [''root''] \<and> \<not> in_git_dir env0 ''/root/keep.log'' \<and>
   fst (is_file_ignored env0 ''/root/keep.log'' ''/root''
          [''/root'' \<mapsto> [''*.log'', ''!keep.log'']]) = Inr False \<and>
   fst (is_file_ignored env0 ''/root/other.log'' ''/root''
          [''/root'' \<mapsto> [''*.log'', ''!keep.log'']]) = Inr True"
proof -
  have v: "valid_names [''root'']" by code_simp
  have a: "abs_path [''root''] = ''/root''" by code_simp
  have p: "path_join ''/root'' ''keep.log'' = ''/root/keep.log''"
    "path_join ''/root'' ''other.log'' = ''/root/other.log''"
    by code_simp+
  have g: "\<not> in_git_dir env0 ''/root/keep.log''" by code_simp
  have g': "\<not> in_git_dir env0 (path_join (abs_path [''root'']) ''keep.log'')"
    unfolding a p by (rule g)
  show ?thesis
    using log_rules_scenario [OF v g'] v g unfolding a p by simp
qed

text \<open>
  C7: the only rule file is at the project root and holds the directory-only rule
  \<^verbatim>\<open>foo/\<close>. \<^verbatim>\<open>is_file_ignored\<close> returns \<^verbatim>\<open>True\<close> for \<^verbatim>\<open>foo/bar.txt\<close> and
  for \<^verbatim>\<open>foo\<close> itself, and \<^verbatim>\<open>False\<close> for \<^verbatim>\<open>barfoo/x\<close> (when that path is
  not inside a \<^verbatim>\<open>.git\<close> directory). In general a rule whose pattern ends with a
  slash matches a path exactly when the path relative to the directory of the rule,
  with a slash appended, starts with the pattern.
\<close>

theorem directory_only_rule:
  assumes "valid_names rs"
    and "\<not> in_git_dir e (path_join (path_join (abs_path rs) ''barfoo'') ''x'')"
  shows "fst (is_file_ignored e (path_join (path_join (abs_path rs) ''foo'') ''bar.txt'')
                (abs_path rs) [abs_path rs \<mapsto> [''foo/'']]) = Inr True \<and>
         fst (is_file_ignored e (path_join (abs_path rs) ''foo'')
                (abs_path rs) [abs_path rs \<mapsto> [''foo/'']]) = Inr True \<and>
         fst (is_file_ignored e (path_join (path_join (abs_path rs) ''barfoo'') ''x'')
                (abs_path rs) [abs_path rs \<mapsto> [''foo/'']]) = Inr False \<and>
         (\<forall>filepath_abs dir line. endswith (rule_pattern line) ''/'' \<longrightarrow>
            rule_matches e filepath_abs (dir, line) =
              startswith (relative_to e filepath_abs dir @ ''/'') (rule_pattern line))"
proof -
  have vn: "valid_name ''foo''" "valid_name ''bar.txt''" "valid_name ''barfoo''" "valid_name ''x''"
    by (simp_all add: valid_name_def)
  have p2: "path_join (abs_path rs) ''foo'' = abs_path (rs @ [''foo''])"
    "path_join (abs_path rs) ''barfoo'' = abs_path (rs @ [''barfoo''])"
    using path_join_abs_path [OF assms(1)] vn by simp_all
  have p1: "path_join (abs_path (rs @ [''foo''])) ''bar.txt'' = abs_path (rs @ [''foo'', ''bar.txt''])"
    using path_join_abs_path [of "rs @ [''foo'']" "''bar.txt''"] assms(1) vn by simp
  have p3: "path_join (abs_path (rs @ [''barfoo''])) ''x'' = abs_path (rs @ [''barfoo'', ''x''])"
    using path_join_abs_path [of "rs @ [''barfoo'']" "''x''"] assms(1) vn by simp
  have m: "pattern_matched ''foo/bar.txt'' ''foo/''" "pattern_matched ''foo'' ''foo/''"
    "\<not> pattern_matched ''barfoo/x'' ''foo/''"
    by code_simp+
  have r: "rule_pattern ''foo/'' = ''foo/''" "\<not> rule_negation ''foo/''"
    by code_simp+
  have nd: "\<not> denylisted e (abs_path (rs @ [''barfoo'', ''x'']))"
    using assms(2) basename_abs_path [OF vn(4), of "rs @ [''barfoo'']"]
    by (simp add: denylisted_def p2 p3 not_always_ignored)
  have a: "fst (is_file_ignored e (abs_path (rs @ [''foo'', ''bar.txt''])) (abs_path rs)
                [abs_path rs \<mapsto> [''foo/'']]) = Inr True"
    using root_rule_file_verdict [OF assms(1) _ vn(2), of "[''foo'']" e "[''foo/'']"] vn
    by (simp add: m r)
  have b: "fst (is_file_ignored e (abs_path (rs @ [''foo''])) (abs_path rs)
                [abs_path rs \<mapsto> [''foo/'']]) = Inr True"
    using root_rule_file_verdict [OF assms(1) _ vn(1), of "[]" e "[''foo/'']"]
    by (simp add: m r)
  have c: "fst (is_file_ignored e (abs_path (rs @ [''barfoo'', ''x''])) (abs_path rs)
                [abs_path rs \<mapsto> [''foo/'']]) = Inr False"
    using root_rule_file_verdict [OF assms(1) _ vn(4), of "[''barfoo'']" e "[''foo/'']"] vn nd
    by (simp add: m r)
  have g: "\<forall>filepath_abs dir line. endswith (rule_pattern line) ''/'' \<longrightarrow>
            rule_matches e filepath_abs (dir, line) =
              startswith (relative_to e filepath_abs dir @ ''/'') (rule_pattern line)"
    by (simp add: rule_matches_def pattern_matched_def)
  show ?thesis
    unfolding p2 p1 p3 using a b c g by (intro conjI)
qed

text \<open>C7 on the project root \<^verbatim>\<open>/root\<close>, and the general part on the rule \<^verbatim>\<open>!foo/\<close>.\<close>

theorem directory_only_rule_witness:
  "valid_names [''root''] \<and> \<not> in_git_dir env0 ''/root/barfoo/x'' \<and>
   fst (is_file_ignored env0 ''/root/foo/bar.txt'' ''/root'' [''/root'' \<mapsto> [''foo/'']]) = Inr True \<and>
   fst (is_file_ignored env0 ''/root/foo'' ''/root'' [''/root'' \<mapsto> [''foo/'']]) = Inr True \<and>
   fst (is_file_ignored env0 ''/root/barfoo/x'' ''/root'' [''/root'' \<mapsto> [''foo/'']]) = Inr False \<and>
   endswith (rule_pattern ''!foo/'') ''/'' \<and>
   rule_matches env0 ''/root/foo/bar.txt'' (''/root'', ''!foo/'')
     = startswith (relative_to env0 ''/root/foo/bar.txt'' ''/root'' @ ''/'') (rule_pattern ''!foo/'')"
proof -
  have v: "valid_names [''root'']" by code_simp
  have a: "abs_path [''root''] = ''/root''" by code_simp
  have p: "path_join ''/root'' ''foo'' = ''/root/foo''"
    "path_join ''/root/foo'' ''bar.txt'' = ''/root/foo/bar.txt''"
    "path_join ''/root'' ''barfoo'' = ''/root/barfoo''"
    "path_join ''/root/barfoo'' ''x'' = ''/root/barfoo/x''"
    by code_simp+
  have g: "\<not> in_git_dir env0 ''/root/barfoo/x''" by code_simp
  have g': "\<not> in_git_dir env0 (path_join (path_join (abs_path [''root'']) ''barfoo'') ''x'')"
    unfolding a p by (rule g)
  have d: "endswith (rule_pattern ''!foo/'') ''/''" by code_simp
  show ?thesis
    using directory_only_rule [OF v g'] v g d unfolding a p by blast
qed

text \<open>
  C8: the only rule file lies in a directory \<open>D\<close> at or under the project root and
  holds \<^verbatim>\<open>*.log\<close>. \<^verbatim>\<open>is_file_ignored\<close> returns \<^verbatim>\<open>True\<close> for \<^verbatim>\<open>D/app.log\<close>
  and for \<^verbatim>\<open>D/sub/app.log\<close>. In general, with a single rule that has no slash and
  no exclamation mark, every path at any depth under \<open>D\<close> whose last component the
  glob matches is ignored; and a pattern without a slash is matched as soon as the
  glob matches the last component of the relative path.
\<close>

theorem unanchored_rule:
  assumes "valid_names rs" and "valid_names ds"
  shows "fst (is_file_ignored e (path_join (abs_path (rs @ ds)) ''app.log'')
                (abs_path rs) [abs_path (rs @ ds) \<mapsto> [''*.log'']]) = Inr True \<and>
         fst (is_file_ignored e (path_join (path_join (abs_path (rs @ ds)) ''sub'') ''app.log'')
                (abs_path rs) [abs_path (rs @ ds) \<mapsto> [''*.log'']]) = Inr True \<and>
         (\<forall>es name g. valid_names es \<and> valid_name name \<and> sep \<notin> set g \<and>
              \<not> startswith g ''!'' \<and> fnmatch name g \<longrightarrow>
            fst (is_file_ignored e (abs_path (rs @ ds @ es @ [name]))
                   (abs_path rs) [abs_path (rs @ ds) \<mapsto> [g]]) = Inr True) \<and>
         (\<forall>rel g. sep \<notin> set g \<and> fnmatch (basename rel) g \<longrightarrow> pattern_matched rel g)"
proof -
  have gen: "fst (is_file_ignored e (abs_path (rs @ ds @ es @ [name]))
                   (abs_path rs) [abs_path (rs @ ds) \<mapsto> [g]]) = Inr True"
    if es: "valid_names es" and name: "valid_name name" and ns: "sep \<notin> set g"
      and nn: "\<not> startswith g ''!''" and fm: "fnmatch name g" for es name g
  proof -
    have rp: "rule_pattern g = g" "\<not> rule_negation g"
      using nn by (simp_all add: rule_pattern_def rule_negation_def)
    have "pattern_matched (join_sep (es @ [name])) g"
      using unanchored_matched [OF ns] fm basename_join_sep [OF name, of es] by simp
    then show ?thesis
      by (simp add: single_rule_file_verdict [OF assms es name] rp)
  qed
  have vn: "valid_name ''app.log''" "valid_name ''sub''"
    by (simp_all add: valid_name_def)
  have v: "valid_names (rs @ ds)" using assms by simp
  have p1: "path_join (abs_path (rs @ ds)) ''app.log'' = abs_path (rs @ ds @ [] @ [''app.log''])"
    "path_join (abs_path (rs @ ds)) ''sub'' = abs_path (rs @ ds @ [''sub''])"
    using path_join_abs_path [OF v] vn by simp_all
  have p2: "path_join (abs_path (rs @ ds @ [''sub''])) ''app.log''
            = abs_path (rs @ ds @ [''sub''] @ [''app.log''])"
    using path_join_abs_path [of "rs @ ds @ [''sub'']" "''app.log''"] assms vn by simp
  have star: "sep \<notin> set ''*.log''" "\<not> startswith ''*.log'' ''!''" "fnmatch ''app.log'' ''*.log''"
    by code_simp+
  have a: "fst (is_file_ignored e (abs_path (rs @ ds @ [] @ [''app.log'']))
                (abs_path rs) [abs_path (rs @ ds) \<mapsto> [''*.log'']]) = Inr True"
    by (rule gen [OF _ vn(1) star]) simp
  have b: "fst (is_file_ignored e (abs_path (rs @ ds @ [''sub''] @ [''app.log'']))
                (abs_path rs) [abs_path (rs @ ds) \<mapsto> [''*.log'']]) = Inr True"
    by (rule gen [OF _ vn(1) star]) (simp add: vn)
  have c: "\<forall>rel g. sep \<notin> set g \<and> fnmatch (basename rel) g \<longrightarrow> pattern_matched rel g"
    using unanchored_matched by blast
  show ?thesis
    unfolding p1 p2 using a b gen c by blast
qed

text \<open>
  C8 on the project root \<^verbatim>\<open>/root\<close> and the directory \<^verbatim>\<open>/root/d\<close>; the general
  part on the rule \<^verbatim>\<open>x.*\<close> and the path \<^verbatim>\<open>/root/d/a/b/x.log\<close>.
\<close>

theorem unanchored_rule_witness:
  "valid_names [''root''] \<and> valid_names [''d''] \<and>
   fst (is_file_ignored env0 ''/root/d/app.log'' ''/root'' [''/root/d'' \<mapsto> [''*.log'']]) = Inr True \<and>
   fst (is_file_ignored env0 ''/root/d/sub/app.log'' ''/root'' [''/root/d'' \<mapsto> [''*.log'']]) = Inr True \<and>
   valid_names [''a'', ''b''] \<and> valid_name ''x.log'' \<and> sep \<notin> set ''x.*'' \<and>
   \<not> startswith ''x.*'' ''!'' \<and> fnmatch ''x.log'' ''x.*'' \<and>
   fst (is_file_ignored env0 ''/root/d/a/b/x.log'' ''/root'' [''/root/d'' \<mapsto> [''x.*'']]) = Inr True"
proof -
  have v: "valid_names [''root'']" "valid_names [''d'']" "valid_names [''a'', ''b'']"
    "valid_name ''x.log''"
    by code_simp+
  have g: "sep \<notin> set ''x.*''" "\<not> startswith ''x.*'' ''!''" "fnmatch ''x.log'' ''x.*''"
    by code_simp+
  have a: "abs_path [''root''] = ''/root''" "abs_path ([''root''] @ [''d'']) = ''/root/d''"
    "abs_path ([''root''] @ [''d''] @ [''a'', ''b''] @ [''x.log'']) = ''/root/d/a/b/x.log''"
    by code_simp+
  have p: "path_join ''/root/d'' ''app.log'' = ''/root/d/app.log''"
    "path_join ''/root/d'' ''sub'' = ''/root/d/sub''"
    "path_join ''/root/d/sub'' ''app.log'' = ''/root/d/sub/app.log''"
    by code_simp+
  note t = unanchored_rule [OF v(1,2), of env0, unfolded a p]
  from t have 1: "fst (is_file_ignored env0 ''/root/d/app.log'' ''/root''
                        [''/root/d'' \<mapsto> [''*.log'']]) = Inr True"
    and 2: "fst (is_file_ignored env0 ''/root/d/sub/app.log'' ''/root''
                        [''/root/d'' \<mapsto> [''*.log'']]) = Inr True"
    by blast+
  from t have "valid_names [''a'', ''b''] \<and> valid_name ''x.log'' \<and> sep \<notin> set ''x.*'' \<and>
              \<not> startswith ''x.*'' ''!'' \<and> fnmatch ''x.log'' ''x.*'' \<longrightarrow>
            fst (is_file_ignored env0 (abs_path ([''root''] @ [''d''] @ [''a'', ''b''] @ [''x.log'']))
                   ''/root'' [''/root/d'' \<mapsto> [''x.*'']]) = Inr True"
    by blast
  then have 3: "fst (is_file_ignored env0 ''/root/d/a/b/x.log'' ''/root''
                        [''/root/d'' \<mapsto> [''x.*'']]) = Inr True"
    unfolding a using v g by blast
  show ?thesis using v g 1 2 3 by blast
qed

end
